theory Spec2Isabelle
  imports Main "HOL-Library.Word"
begin

section \<open>The task queue (\<open>safe_queue\<close> of threadpool.cpp)\<close>

text \<open>
  \<open>safe_queue<T>\<close> wraps a \<open>std::queue<T>\<close> and a \<open>shared_mutex\<close>. Every method takes
  the mutex for the whole of its body and releases it on return, so each call is one
  atomic action on the sequence; the sequence is a list whose head is the front.
  \<open>pop\<close> has an out-parameter \<open>t\<close>: it is passed in and returned, untouched when the
  queue is empty. The test in \<open>pop\<close> is \<open>empty\<close> of the \<open>std::queue\<close> inside.
\<close>

definition safe_queue_empty :: "'a list \<Rightarrow> bool" where
  "safe_queue_empty q = (q = [])"

definition safe_queue_size :: "'a list \<Rightarrow> nat" where
  "safe_queue_size q = length q"

definition safe_queue_push :: "'a \<Rightarrow> 'a list \<Rightarrow> 'a list" where
  "safe_queue_push t q = q @ [t]"

definition safe_queue_pop :: "'a \<Rightarrow> 'a list \<Rightarrow> bool \<times> 'a \<times> 'a list" where
  "safe_queue_pop t q =
     (if q = [] then (False, t, q) else (True, hd q, tl q))"

text \<open>
  A caller of the queue: a sequence of \<open>push\<close> and \<open>pop\<close> calls, run in order. The
  values that the successful pops hand back are collected in call order.
\<close>

datatype 'a queue_call = Push 'a | Pop 'a

fun run_calls :: "'a queue_call list \<Rightarrow> 'a list \<Rightarrow> 'a list \<times> 'a list" where
  "run_calls [] q = ([], q)"
| "run_calls (Push x # cs) q = run_calls cs (safe_queue_push x q)"
| "run_calls (Pop t # cs) q =
     (case safe_queue_pop t q of
        (True, x, q') \<Rightarrow> (case run_calls cs q' of (out, r) \<Rightarrow> (x # out, r))
      | (False, _, q') \<Rightarrow> run_calls cs q')"

fun pushed :: "'a queue_call list \<Rightarrow> 'a list" where
  "pushed [] = []"
| "pushed (Push x # cs) = x # pushed cs"
| "pushed (Pop t # cs) = pushed cs"


section \<open>The worker pool (\<open>ThreadPool\<close> of threadpool.cpp)\<close>

subsection \<open>Callables, packaged tasks and futures\<close>

text \<open>
  What running a submitted callable \<open>f(args...)\<close> does, as far as the pool can see:
  it throws, or it returns (nothing, for a \<open>void\<close> callable such as the destructor's
  \<open>[]() {}\<close>, or a value).
\<close>

datatype 'v outcome = Thrown string | Returned_void | Returned 'v

type_synonym 'v callable = "unit \<Rightarrow> 'v outcome"

text \<open>
  \<open>std::packaged_task\<close> and \<open>std::future\<close> are the standard library's. A packaged task
  holds the callable and a shared state, empty until the task is called. Calling it runs
  the callable and stores what it returned or threw in the shared state; calling it a
  second time throws \<open>std::future_error\<close>. \<open>future::get\<close> blocks while the shared state
  is empty (\<open>None\<close> here), then returns the stored value or rethrows the stored
  exception.
\<close>

record 'v packaged_task =
  task :: "'v callable"
  shared_state :: "'v outcome option"

datatype task_error = future_error

definition packaged_task_call :: "'v packaged_task \<Rightarrow> task_error + 'v packaged_task" where
  "packaged_task_call pt =
     (case shared_state pt of
        None \<Rightarrow> Inr (pt\<lparr>shared_state := Some (task pt ())\<rparr>)
      | Some r \<Rightarrow> Inl future_error)"

definition future_get :: "'v packaged_task \<Rightarrow> 'v outcome option" where
  "future_get pt = shared_state pt"

subsection \<open>Threads and the state of the pool\<close>

text \<open>
  The threads that touch a pool: the thread that owns it and runs its destructor, any
  number of other threads (or jobs) that call \<open>submit\<close>, and the \<open>n\<close> workers.
\<close>

datatype thread = Owner | Client nat | Worker nat

text \<open>
  A \<open>std::function<void()>\<close> as the pool uses it: the empty one (a default-constructed
  \<open>func\<close>), or a \<open>wrapper_func\<close> of \<open>submit\<close>, which has captured the address
  \<open>task_ptr\<close> of its packaged task.
\<close>

datatype job = Empty_function | Wrapper nat

text \<open>
  Where a worker is in \<open>worker::operator()\<close>:
  \<^item> \<open>W_loop\<close>: about to evaluate the loop condition \<open>!pool->is_shut_down\<close>;
  \<^item> \<open>W_lock\<close>: about to take \<open>pool->_m\<close>, on entering the block or on waking;
  \<^item> \<open>W_pred\<close>: holding the mutex, about to evaluate the predicate of \<open>cv.wait\<close>;
  \<^item> \<open>W_block\<close>: the predicate was false; about to release the mutex and block;
  \<^item> \<open>W_waiting\<close>: blocked on \<open>cv\<close>;
  \<^item> \<open>W_unlock\<close>: the predicate was true; about to leave the block and release the mutex;
  \<^item> \<open>W_pop\<close>: about to call \<open>pool->q.pop(func)\<close>;
  \<^item> \<open>W_call func\<close>: \<open>pop\<close> returned true; about to call \<open>func()\<close>;
  \<^item> \<open>W_stopped\<close>: \<open>operator()\<close> has returned;
  \<^item> \<open>W_terminated\<close>: an exception has left \<open>operator()\<close> (\<open>std::terminate\<close>).
\<close>

datatype worker_pc =
    W_loop | W_lock | W_pred | W_block | W_waiting | W_unlock | W_pop | W_call job
  | W_stopped | W_terminated

text \<open>
  Where the owner is in \<open>~ThreadPool\<close>: not yet in it; inside the \<open>submit\<close> of the
  sentinel; at \<open>f.get()\<close>; at \<open>is_shut_down = true\<close>; at \<open>cv.notify_all()\<close>; in the
  loop over \<open>threads\<close>, at the join of thread \<open>k\<close>; and past the body, when the
  members (\<open>cv\<close>, \<open>_m\<close>, \<open>threads\<close>, \<open>q\<close>) have been destroyed. \<open>D_terminated\<close>: an
  exception has left the destructor (\<open>std::terminate\<close>).
\<close>

datatype dtor_pc =
    D_start | D_submit | D_get | D_set_flag | D_notify_all | D_join nat | D_destroyed
  | D_terminated

text \<open>
  What the threads do to the shared state, in the order they do it: a thread pushes
  the wrapper of the task at an address; a thread calls \<open>notify_one\<close>; the owner's
  \<open>f.get()\<close> returns; the owner writes the flag, calls \<open>notify_all\<close>, joins a thread,
  destroys the members; a worker evaluates its loop condition \<open>!pool->is_shut_down\<close>
  (with the value it finds), takes \<open>_m\<close>, evaluates the predicate of \<open>cv.wait\<close> (with
  its value), releases \<open>_m\<close>, pops (with the job, if any), has called the task at an
  address.
\<close>

datatype event =
    Pushed thread nat
  | Notified_one thread
  | Got nat
  | Flag_set
  | Notified_all
  | Joined nat
  | Destroyed
  | Loop_cond nat bool
  | Locked nat
  | Wait_pred nat bool
  | Unlocked nat
  | Popped nat "job option"
  | Called nat nat

text \<open>
  The pool. \<open>is_shut_down\<close> and \<open>q\<close> are the members of that name; \<open>q\<close> holds the
  wrappers, each the address of its packaged task (the \<open>task_ptr\<close> it captured).
  \<open>threads\<close> gives each worker's position, \<open>n_threads\<close> their number. \<open>m_owner\<close> is
  the thread holding \<open>_m\<close>; the workers blocked on \<open>cv\<close> are those at \<open>W_waiting\<close>.
  \<open>heap\<close> holds the packaged tasks that \<open>make_shared\<close> has allocated, by address.
  \<open>in_submit\<close> is the \<open>task_ptr\<close> of each thread that is inside \<open>submit\<close>, between its
  \<open>q.push\<close> and its \<open>cv.notify_one\<close>. \<open>dtor\<close> is the owner's position and \<open>dtor_f\<close> the
  future \<open>f\<close> of the destructor. \<open>trace\<close> records the events so far.
\<close>

record 'v ThreadPool =
  is_shut_down :: bool
  q :: "job list"
  threads :: "nat \<Rightarrow> worker_pc"
  n_threads :: nat
  m_owner :: "thread option"
  heap :: "'v packaged_task list"
  in_submit :: "thread \<Rightarrow> nat option"
  dtor :: dtor_pc
  dtor_f :: "nat option"
  trace :: "event list"

text \<open>
  \<open>ThreadPool(int n)\<close>, read as its comment says: \<open>n\<close> threads are created, each running
  \<open>worker()\<close>. \<open>is_shut_down\<close> is declared before \<open>threads\<close>, so it is false before the
  first worker starts. Every worker is at the start of its function and the queue is
  empty.
\<close>

definition ThreadPool_init :: "nat \<Rightarrow> 'v ThreadPool" where
  "ThreadPool_init n =
     \<lparr>is_shut_down = False, q = [], threads = (\<lambda>i. W_loop), n_threads = n,
      m_owner = None, heap = [], in_submit = (\<lambda>t. None), dtor = D_start,
      dtor_f = None, trace = []\<rparr>"

text \<open>
  Recording an event; moving worker \<open>i\<close> to a position; the workers blocked on \<open>cv\<close>.
\<close>

definition emit :: "event \<Rightarrow> 'v ThreadPool \<Rightarrow> 'v ThreadPool" where
  "emit e s = s\<lparr>trace := trace s @ [e]\<rparr>"

definition goto :: "nat \<Rightarrow> worker_pc \<Rightarrow> 'v ThreadPool \<Rightarrow> 'v ThreadPool" where
  "goto i pc s = s\<lparr>threads := (threads s)(i := pc)\<rparr>"

definition waiting :: "'v ThreadPool \<Rightarrow> nat list" where
  "waiting s = filter (\<lambda>i. threads s i = W_waiting) [0..<n_threads s]"

subsection \<open>\<open>submit\<close>\<close>

text \<open>
  \<open>submit\<close> touches the shared state twice: \<open>q.push(wrapper_func)\<close>, after the packaged
  task has been allocated, and \<open>cv.notify_one()\<close>, after which it returns the future of
  the task. Other threads may run in between. \<open>notify_one\<close> unblocks one of the threads
  blocked on \<open>cv\<close> if there is any: \<open>w\<close> is the one that the implementation picks,
  \<open>None\<close> when no thread is blocked.
\<close>

definition submit_push :: "thread \<Rightarrow> 'v callable \<Rightarrow> 'v ThreadPool \<Rightarrow> 'v ThreadPool" where
  "submit_push t f s =
     (let task_ptr = length (heap s) in
      emit (Pushed t task_ptr)
        (s\<lparr>heap := heap s @ [\<lparr>task = f, shared_state = None\<rparr>],
           q := safe_queue_push (Wrapper task_ptr) (q s),
           in_submit := (in_submit s)(t \<mapsto> task_ptr)\<rparr>))"

definition notify_one :: "nat option \<Rightarrow> 'v ThreadPool \<Rightarrow> 'v ThreadPool option" where
  "notify_one w s =
     (case w of
        None \<Rightarrow> if waiting s = [] then Some s else None
      | Some i \<Rightarrow> if i \<in> set (waiting s) then Some (goto i W_lock s) else None)"

definition notify_all :: "'v ThreadPool \<Rightarrow> 'v ThreadPool" where
  "notify_all s =
     s\<lparr>threads := (\<lambda>i. if i \<in> set (waiting s) then W_lock else threads s i)\<rparr>"

definition submit_notify :: "thread \<Rightarrow> nat option \<Rightarrow> 'v ThreadPool \<Rightarrow> (nat \<times> 'v ThreadPool) option" where
  "submit_notify t w s =
     (case in_submit s t of
        None \<Rightarrow> None
      | Some task_ptr \<Rightarrow>
          (case notify_one w s of
             None \<Rightarrow> None
           | Some s' \<Rightarrow>
               Some (task_ptr,
                     emit (Notified_one t) (s'\<lparr>in_submit := (in_submit s')(t := None)\<rparr>))))"

text \<open>
  A call of \<open>submit\<close> that no other thread interrupts: it returns the future and the new
  state.
\<close>

definition submit :: "thread \<Rightarrow> 'v callable \<Rightarrow> nat option \<Rightarrow> 'v ThreadPool \<Rightarrow> (nat \<times> 'v ThreadPool) option" where
  "submit t f w s = submit_notify t w (submit_push t f s)"


subsection \<open>The worker\<close>

text \<open>
  One step of worker \<open>i\<close> in \<open>worker::operator()\<close>. Taking the mutex is possible only
  when no thread holds it; a blocked or finished worker has no step of its own. The
  predicate of \<open>cv.wait\<close>, \<open>is_shut_down || !q.empty()\<close>, is evaluated in one step, and
  blocking is a step of its own after a false predicate: \<open>submit\<close> and the destructor
  do not take \<open>_m\<close>, so they can run in between. A worker that is woken takes the
  mutex again and evaluates the predicate again. Calling
  \<open>func()\<close> calls the packaged task of the wrapper; an exception that leaves \<open>func()\<close>
  (\<open>future_error\<close> of a task called twice, \<open>bad_function_call\<close> of an empty function) leaves
  the thread function.
\<close>

definition worker_step :: "nat \<Rightarrow> 'v ThreadPool \<Rightarrow> 'v ThreadPool option" where
  "worker_step i s =
     (case threads s i of
        W_loop \<Rightarrow>
          Some (emit (Loop_cond i (\<not> is_shut_down s))
                  (goto i (if \<not> is_shut_down s then W_lock else W_stopped) s))
      | W_lock \<Rightarrow>
          (case m_owner s of
             None \<Rightarrow> Some (emit (Locked i) (goto i W_pred (s\<lparr>m_owner := Some (Worker i)\<rparr>)))
           | Some j \<Rightarrow> None)
      | W_pred \<Rightarrow>
          (let b = (is_shut_down s \<or> \<not> safe_queue_empty (q s)) in
           Some (emit (Wait_pred i b) (goto i (if b then W_unlock else W_block) s)))
      | W_block \<Rightarrow> Some (emit (Unlocked i) (goto i W_waiting (s\<lparr>m_owner := None\<rparr>)))
      | W_waiting \<Rightarrow> None
      | W_unlock \<Rightarrow> Some (emit (Unlocked i) (goto i W_pop (s\<lparr>m_owner := None\<rparr>)))
      | W_pop \<Rightarrow>
          (case safe_queue_pop Empty_function (q s) of
             (flag, func, q') \<Rightarrow>
               if flag then Some (emit (Popped i (Some func)) (goto i (W_call func) (s\<lparr>q := q'\<rparr>)))
               else Some (emit (Popped i None) (goto i W_loop (s\<lparr>q := q'\<rparr>))))
      | W_call func \<Rightarrow>
          (case func of
             Empty_function \<Rightarrow> Some (goto i W_terminated s)
           | Wrapper task_ptr \<Rightarrow>
               if task_ptr < length (heap s) then
                 (case packaged_task_call (heap s ! task_ptr) of
                    Inr pt \<Rightarrow>
                      Some (emit (Called i task_ptr)
                              (goto i W_loop (s\<lparr>heap := (heap s)[task_ptr := pt]\<rparr>)))
                  | Inl e \<Rightarrow> Some (goto i W_terminated s))
               else None)
      | W_stopped \<Rightarrow> None
      | W_terminated \<Rightarrow> None)"

subsection \<open>The destructor\<close>

definition noop :: "'v callable" where
  "noop = (\<lambda>u. Returned_void)"

text \<open>
  One step of the owner in \<open>~ThreadPool\<close>, its \<open>submit\<close> apart, which ends with the
  \<open>cv.notify_one\<close> of \<open>submit_notify\<close>. \<open>f.get()\<close> has no step while the shared state of
  the sentinel is empty, and \<open>t.join()\<close> none until the thread has returned. After the
  last join the body ends and the members are destroyed.
\<close>

definition dtor_step :: "'v ThreadPool \<Rightarrow> 'v ThreadPool option" where
  "dtor_step s =
     (case dtor s of
        D_start \<Rightarrow> Some ((submit_push Owner noop s)\<lparr>dtor := D_submit\<rparr>)
      | D_submit \<Rightarrow> None
      | D_get \<Rightarrow>
          (case dtor_f s of
             None \<Rightarrow> None
           | Some f \<Rightarrow>
               if f < length (heap s) then
                 (case future_get (heap s ! f) of
                    None \<Rightarrow> None
                  | Some (Thrown e) \<Rightarrow> Some (s\<lparr>dtor := D_terminated\<rparr>)
                  | Some r \<Rightarrow> Some (emit (Got f) (s\<lparr>dtor := D_set_flag\<rparr>)))
               else None)
      | D_set_flag \<Rightarrow> Some (emit Flag_set (s\<lparr>is_shut_down := True, dtor := D_notify_all\<rparr>))
      | D_notify_all \<Rightarrow> Some (emit Notified_all ((notify_all s)\<lparr>dtor := D_join 0\<rparr>))
      | D_join k \<Rightarrow>
          if k < n_threads s then
            (if threads s k = W_stopped then Some (emit (Joined k) (s\<lparr>dtor := D_join (Suc k)\<rparr>))
             else None)
          else Some (emit Destroyed (s\<lparr>dtor := D_destroyed\<rparr>))
      | D_destroyed \<Rightarrow> None
      | D_terminated \<Rightarrow> None)"

subsection \<open>Runs of the pool\<close>

text \<open>
  The scheduler picks what happens next: a worker takes its next step; a blocked worker
  wakes spuriously; a client thread that is not inside \<open>submit\<close> calls it and does the
  push; a thread inside \<open>submit\<close> does the notify and returns; the owner takes its next
  step in the destructor. A step that is not possible in the state is \<open>None\<close>. Nothing
  is submitted to a pool that has been destroyed.
\<close>

datatype 'v label =
    Run_worker nat
  | Spurious_wake nat
  | Begin_submit nat "'v callable"
  | End_submit thread "nat option"
  | Run_dtor

definition step :: "'v label \<Rightarrow> 'v ThreadPool \<Rightarrow> 'v ThreadPool option" where
  "step l s =
     (case l of
        Run_worker i \<Rightarrow> if i < n_threads s then worker_step i s else None
      | Spurious_wake i \<Rightarrow> if i \<in> set (waiting s) then Some (goto i W_lock s) else None
      | Begin_submit c f \<Rightarrow>
          if dtor s \<noteq> D_destroyed \<and> in_submit s (Client c) = None
          then Some (submit_push (Client c) f s) else None
      | End_submit t w \<Rightarrow>
          if dtor s = D_destroyed then None
          else
            (case submit_notify t w s of
               None \<Rightarrow> None
             | Some (future, s') \<Rightarrow>
                 if t = Owner then Some (s'\<lparr>dtor := D_get, dtor_f := Some future\<rparr>)
                 else Some s')
      | Run_dtor \<Rightarrow> dtor_step s)"

fun run :: "'v label list \<Rightarrow> 'v ThreadPool \<Rightarrow> 'v ThreadPool option" where
  "run [] s = Some s"
| "run (l # ls) s = (case step l s of None \<Rightarrow> None | Some s' \<Rightarrow> run ls s')"


section \<open>The value document (\<open>json::Node\<close> of json.cpp)\<close>

text \<open>
  \<open>Value\<close> is the \<open>std::variant\<close> of the seven shapes and \<open>Node\<close> the struct holding
  one. \<open>Int\<close> is \<open>int64_t\<close>; the representation of \<open>Float\<close> is a parameter. An
  \<open>Object\<close> is a \<open>std::map\<close> from keys to nodes: a finite map with one node per key.
  The two exceptions the three operations can throw are the values of \<open>error\<close>:
  \<open>std::runtime_error\<close> with its message, and the \<open>std::out_of_range\<close> of
  \<open>vector::at\<close>.
\<close>

datatype error = runtime_error string | out_of_range

datatype 'f Node = Node (val: "'f Value")
and 'f Value =
    Null
  | Bool bool
  | Int64 "64 word"
  | Float 'f
  | String string
  | Array "'f Node list"
  | Object "string \<Rightarrow> 'f Node option"

text \<open>
  \<open>operator[](const std::string&)\<close> returns a reference into the object and, through
  \<open>std::map::operator[]\<close>, may change the object first. The result is the node that the
  reference denotes together with the node \<open>*this\<close> after the call.
\<close>

fun Node_index_key :: "string \<Rightarrow> 'f Node \<Rightarrow> error + ('f Node \<times> 'f Node)" where
  "Node_index_key key (Node (Object object)) =
     (case object key of
        Some n \<Rightarrow> Inr (n, Node (Object object))
      | None \<Rightarrow> Inr (Node Null, Node (Object (object(key \<mapsto> Node Null)))))"
| "Node_index_key key (Node v) = Inl (runtime_error ''not an object'')"

fun Node_index :: "nat \<Rightarrow> 'f Node \<Rightarrow> error + 'f Node" where
  "Node_index index (Node (Array array)) =
     (if index < length array then Inr (array ! index) else Inl out_of_range)"
| "Node_index index (Node v) = Inl (runtime_error ''not an array'')"

fun Node_push :: "'f Node \<Rightarrow> 'f Node \<Rightarrow> error + 'f Node" where
  "Node_push rhs (Node (Array array)) = Inr (Node (Array (array @ [rhs])))"
| "Node_push rhs (Node v) = Inl (runtime_error ''not an array push'')"


section \<open>Reading a trace\<close>

subsection \<open>The owner's events and the order of teardown\<close>

text \<open>
  The events of the owner's thread: the push and the notify of its own \<open>submit\<close>, and
  everything only the destructor does.
\<close>

fun owner_event :: "event \<Rightarrow> bool" where
  "owner_event (Pushed t p) = (t = Owner)"
| "owner_event (Notified_one t) = (t = Owner)"
| "owner_event (Got f) = True"
| "owner_event Flag_set = True"
| "owner_event Notified_all = True"
| "owner_event (Joined k) = True"
| "owner_event Destroyed = True"
| "owner_event e = False"

definition owner_events :: "event list \<Rightarrow> event list" where
  "owner_events es = filter owner_event es"

text \<open>
  A complete teardown of a pool of \<open>n\<close> workers whose sentinel is the task at \<open>f\<close>:
  submit the sentinel, wait for its future, set the flag, wake all, join the threads
  in the order of \<open>threads\<close>, destroy the members.
\<close>

definition teardown_sequence :: "nat \<Rightarrow> nat \<Rightarrow> event list" where
  "teardown_sequence f n =
     [Pushed Owner f, Notified_one Owner, Got f, Flag_set, Notified_all] @
     map Joined [0..<n] @ [Destroyed]"

subsection \<open>A worker's events\<close>

fun worker_event :: "event \<Rightarrow> nat option" where
  "worker_event (Loop_cond i b) = Some i"
| "worker_event (Locked i) = Some i"
| "worker_event (Wait_pred i b) = Some i"
| "worker_event (Unlocked i) = Some i"
| "worker_event (Popped i j) = Some i"
| "worker_event (Called i p) = Some i"
| "worker_event e = None"

definition worker_events :: "nat \<Rightarrow> event list \<Rightarrow> event list" where
  "worker_events i es = filter (\<lambda>e. worker_event e = Some i) es"

subsection \<open>Jobs pushed and jobs popped\<close>

fun popped_job :: "event \<Rightarrow> job list" where
  "popped_job (Popped i (Some j)) = [j]"
| "popped_job e = []"

fun pushed_job :: "event \<Rightarrow> job list" where
  "pushed_job (Pushed t p) = [Wrapper p]"
| "pushed_job e = []"

definition popped_jobs :: "event list \<Rightarrow> job list" where
  "popped_jobs es = concat (map popped_job es)"

definition pushed_jobs :: "event list \<Rightarrow> job list" where
  "pushed_jobs es = concat (map pushed_job es)"

subsection \<open>Accesses to the flag and the holder of the mutex\<close>

text \<open>
  \<open>lock_event h e\<close> is the holder of \<open>_m\<close> after the event \<open>e\<close> when \<open>h\<close> held it before.
  \<open>accessor e\<close> is the thread that reads or writes \<open>is_shut_down\<close> in \<open>e\<close>: a worker in
  its loop condition and in its wait predicate, the owner in \<open>is_shut_down = true\<close>.
  \<open>unlocked_accesses h es\<close> are the accesses of \<open>es\<close>, in order, made by a thread that
  does not hold \<open>_m\<close> at that moment, \<open>h\<close> being the holder before \<open>es\<close>.
\<close>

fun lock_event :: "thread option \<Rightarrow> event \<Rightarrow> thread option" where
  "lock_event h (Locked i) = Some (Worker i)"
| "lock_event h (Unlocked i) = None"
| "lock_event h e = h"

fun accessor :: "event \<Rightarrow> thread option" where
  "accessor (Loop_cond i b) = Some (Worker i)"
| "accessor (Wait_pred i b) = Some (Worker i)"
| "accessor Flag_set = Some Owner"
| "accessor e = None"

fun unlocked_accesses :: "thread option \<Rightarrow> event list \<Rightarrow> event list" where
  "unlocked_accesses h [] = []"
| "unlocked_accesses h (e # es) =
     (if accessor e \<noteq> None \<and> accessor e \<noteq> h then [e] else []) @
     unlocked_accesses (lock_event h e) es"

text \<open>The two accesses outside the wait predicate.\<close>

fun outside_lock :: "event \<Rightarrow> bool" where
  "outside_lock (Loop_cond i b) = True"
| "outside_lock Flag_set = True"
| "outside_lock e = False"


section \<open>Example runs\<close>

text \<open>
  One worker and no client: the owner destroys the pool, the worker runs the sentinel
  and leaves its loop.
\<close>

definition teardown_schedule :: "unit label list" where
  "teardown_schedule =
     [Run_dtor, End_submit Owner None,
      Run_worker 0, Run_worker 0, Run_worker 0, Run_worker 0, Run_worker 0, Run_worker 0,
      Run_dtor, Run_dtor, Run_dtor, Run_worker 0, Run_dtor, Run_dtor]"

text \<open>
  The same, but another thread submits a job after the sentinel has run and before
  the flag is set.
\<close>

definition late_submit_schedule :: "unit label list" where
  "late_submit_schedule =
     [Run_dtor, End_submit Owner None,
      Run_worker 0, Run_worker 0, Run_worker 0, Run_worker 0, Run_worker 0, Run_worker 0,
      Run_dtor, Begin_submit 0 (\<lambda>u. Returned ()), End_submit (Client 0) None,
      Run_dtor, Run_dtor, Run_worker 0, Run_dtor, Run_dtor]"

text \<open>A client submits a callable that throws; the worker gets as far as popping it.\<close>

definition throwing_schedule :: "unit label list" where
  "throwing_schedule =
     [Begin_submit 0 (\<lambda>u. Thrown ''boom''), End_submit (Client 0) None,
      Run_worker 0, Run_worker 0, Run_worker 0, Run_worker 0, Run_worker 0]"

text \<open>
  Two workers find the queue empty and block; then the owner pushes the sentinel. In
  the longer run the owner's \<open>notify_one\<close> wakes worker 0, which runs the sentinel, and
  the owner sets the flag: worker 1 is still blocked when \<open>notify_all\<close> is next.
\<close>

definition two_waiting_schedule :: "unit label list" where
  "two_waiting_schedule =
     [Run_worker 0, Run_worker 0, Run_worker 0, Run_worker 0,
      Run_worker 1, Run_worker 1, Run_worker 1, Run_worker 1,
      Run_dtor]"

definition before_notify_all_schedule :: "unit label list" where
  "before_notify_all_schedule =
     two_waiting_schedule @
     [End_submit Owner (Some 0),
      Run_worker 0, Run_worker 0, Run_worker 0, Run_worker 0, Run_worker 0,
      Run_dtor, Run_dtor]"

text \<open>
  The complete teardown of a pool of two workers: after \<open>notify_all\<close> worker 1 wakes,
  finds the queue empty and the flag set and leaves its loop, worker 0 leaves its
  loop, and the owner joins both and destroys the members.
\<close>

definition two_worker_teardown_schedule :: "unit label list" where
  "two_worker_teardown_schedule =
     before_notify_all_schedule @
     [Run_dtor,
      Run_worker 1, Run_worker 1, Run_worker 1, Run_worker 1, Run_worker 1,
      Run_worker 0,
      Run_dtor, Run_dtor, Run_dtor]"

text \<open>Two jobs are submitted; worker 1 pops the first and worker 0 the second.\<close>

definition two_jobs_schedule :: "unit label list" where
  "two_jobs_schedule =
     [Begin_submit 0 (\<lambda>u. Returned ()), End_submit (Client 0) None,
      Begin_submit 0 (\<lambda>u. Returned_void), End_submit (Client 0) None,
      Run_worker 1, Run_worker 1, Run_worker 1, Run_worker 1, Run_worker 1,
      Run_worker 0, Run_worker 0, Run_worker 0, Run_worker 0, Run_worker 0]"


section \<open>Invariants of the pool\<close>

subsection \<open>Queued and running jobs\<close>

text \<open>
  A job is pending when it wraps a task of the heap that has not been called. In a
  well-formed pool the queue holds pending jobs, each once; a worker about to call a
  job has taken it from the queue, so the job is pending, no longer queued, and no
  other worker has it; and no worker has been terminated by an exception.
\<close>

fun pending :: "'v ThreadPool \<Rightarrow> job \<Rightarrow> bool" where
  "pending s Empty_function = False"
| "pending s (Wrapper p) = (p < length (heap s) \<and> shared_state (heap s ! p) = None)"

definition wf :: "'v ThreadPool \<Rightarrow> bool" where
  "wf s \<longleftrightarrow>
     distinct (q s) \<and> (\<forall>j \<in> set (q s). pending s j) \<and>
     (\<forall>i j. threads s i = W_call j \<longrightarrow>
        pending s j \<and> j \<notin> set (q s) \<and> (\<forall>k. k \<noteq> i \<longrightarrow> threads s k \<noteq> W_call j)) \<and>
     (\<forall>i. threads s i \<noteq> W_terminated)"

subsection \<open>Shared states\<close>

text \<open>
  The shared state of the task at \<open>p\<close> holds \<open>r\<close>. What a shared state holds is what
  its task's callable produced.
\<close>

definition ready :: "'v ThreadPool \<Rightarrow> nat \<Rightarrow> 'v outcome \<Rightarrow> bool" where
  "ready s p r \<longleftrightarrow> p < length (heap s) \<and> shared_state (heap s ! p) = Some r"

definition results_ok :: "'v ThreadPool \<Rightarrow> bool" where
  "results_ok s \<longleftrightarrow> (\<forall>p r. ready s p r \<longrightarrow> r = task (heap s ! p) ())"

subsection \<open>The destructor\<close>

text \<open>
  \<open>teardown_done f n pc\<close> are the owner's events when the destructor is at \<open>pc\<close>, and
  \<open>stage pc\<close> counts the statements of its body that are behind it. The sentinel is
  the \<open>task_ptr\<close> of the owner's \<open>submit\<close> while it is inside it and the future \<open>f\<close>
  afterwards.
\<close>

fun teardown_done :: "nat \<Rightarrow> nat \<Rightarrow> dtor_pc \<Rightarrow> event list" where
  "teardown_done f n D_start = []"
| "teardown_done f n D_submit = [Pushed Owner f]"
| "teardown_done f n D_get = [Pushed Owner f, Notified_one Owner]"
| "teardown_done f n D_terminated = [Pushed Owner f, Notified_one Owner]"
| "teardown_done f n D_set_flag = [Pushed Owner f, Notified_one Owner, Got f]"
| "teardown_done f n D_notify_all = [Pushed Owner f, Notified_one Owner, Got f, Flag_set]"
| "teardown_done f n (D_join k) =
     [Pushed Owner f, Notified_one Owner, Got f, Flag_set, Notified_all] @ map Joined [0..<k]"
| "teardown_done f n D_destroyed = teardown_sequence f n"

fun stage :: "dtor_pc \<Rightarrow> nat" where
  "stage D_start = 0"
| "stage D_submit = 1"
| "stage D_get = 2"
| "stage D_terminated = 2"
| "stage D_set_flag = 3"
| "stage D_notify_all = 4"
| "stage (D_join k) = 5"
| "stage D_destroyed = 6"

definition sentinel :: "'v ThreadPool \<Rightarrow> nat option" where
  "sentinel s = (if dtor s = D_submit then in_submit s Owner else dtor_f s)"

definition dtor_inv :: "'v ThreadPool \<Rightarrow> bool" where
  "dtor_inv s \<longleftrightarrow>
     (dtor s \<noteq> D_submit \<longrightarrow> in_submit s Owner = None) \<and>
     (dtor s = D_start \<longrightarrow> owner_events (trace s) = []) \<and>
     (dtor s \<noteq> D_start \<longrightarrow>
        (\<exists>f. sentinel s = Some f \<and> f < length (heap s) \<and> task (heap s ! f) = noop \<and>
             owner_events (trace s) = teardown_done f (n_threads s) (dtor s) \<and>
             (3 \<le> stage (dtor s) \<longrightarrow> ready s f Returned_void))) \<and>
     (is_shut_down s \<longleftrightarrow> 4 \<le> stage (dtor s)) \<and>
     (\<forall>k. dtor s = D_join k \<longrightarrow> k \<le> n_threads s \<and> (\<forall>i<k. threads s i = W_stopped)) \<and>
     (dtor s = D_destroyed \<longrightarrow> (\<forall>i<n_threads s. threads s i = W_stopped)) \<and>
     dtor s \<noteq> D_terminated"

text \<open>What a step of a worker or of a client leaves as it is.\<close>

definition frame :: "'v ThreadPool \<Rightarrow> 'v ThreadPool \<Rightarrow> bool" where
  "frame s s' \<longleftrightarrow>
     dtor s' = dtor s \<and> dtor_f s' = dtor_f s \<and> in_submit s' Owner = in_submit s Owner \<and>
     is_shut_down s' = is_shut_down s \<and> n_threads s' = n_threads s \<and>
     owner_events (trace s') = owner_events (trace s) \<and>
     length (heap s) \<le> length (heap s') \<and>
     (\<forall>p<length (heap s). task (heap s' ! p) = task (heap s ! p)) \<and>
     (\<forall>p r. ready s p r \<longrightarrow> ready s' p r) \<and>
     (\<forall>k. threads s k = W_stopped \<longrightarrow> threads s' k = W_stopped)"

subsection \<open>A worker\<close>

text \<open>
  In the events of worker \<open>i\<close>, a pop that returned a job is followed at once by the
  call of that job. The invariant of worker \<open>i\<close>: it has stopped exactly when it has
  found its loop condition false, and then the flag is set; it is about to call a
  job exactly when its last event is the pop that returned the job.
\<close>

definition pops_called :: "nat \<Rightarrow> event list \<Rightarrow> bool" where
  "pops_called i es \<longleftrightarrow>
     (\<forall>k j. Suc k < length es \<and> es ! k = Popped i (Some j) \<longrightarrow>
        (\<exists>p. j = Wrapper p \<and> es ! Suc k = Called i p))"

definition worker_inv :: "nat \<Rightarrow> 'v ThreadPool \<Rightarrow> bool" where
  "worker_inv i s \<longleftrightarrow>
     (threads s i = W_stopped \<longleftrightarrow> Loop_cond i False \<in> set (trace s)) \<and>
     (threads s i = W_stopped \<longrightarrow> is_shut_down s) \<and>
     (\<forall>j. threads s i = W_call j \<longleftrightarrow>
        worker_events i (trace s) \<noteq> [] \<and> last (worker_events i (trace s)) = Popped i (Some j)) \<and>
     pops_called i (worker_events i (trace s))"

text \<open>What a step that is not worker \<open>i\<close>'s own can do to worker \<open>i\<close>.\<close>

definition aside :: "nat \<Rightarrow> 'v ThreadPool \<Rightarrow> 'v ThreadPool \<Rightarrow> bool" where
  "aside i s s' \<longleftrightarrow>
     worker_events i (trace s') = worker_events i (trace s) \<and>
     (Loop_cond i False \<in> set (trace s') \<longleftrightarrow> Loop_cond i False \<in> set (trace s)) \<and>
     (threads s' i = threads s i \<or> threads s i = W_waiting \<and> threads s' i = W_lock) \<and>
     (is_shut_down s \<longrightarrow> is_shut_down s')"

subsection \<open>The mutex\<close>

text \<open>
  The positions at which a worker holds \<open>_m\<close>. The invariant: the holder that the trace
  gives is the holder of the state; a worker holds the mutex exactly at these
  positions and the owner never; and the accesses to the flag made without the mutex
  are the loop conditions and the owner's write.
\<close>

fun holding :: "worker_pc \<Rightarrow> bool" where
  "holding W_pred = True"
| "holding W_block = True"
| "holding W_unlock = True"
| "holding pc = False"

definition lock_inv :: "'v ThreadPool \<Rightarrow> bool" where
  "lock_inv s \<longleftrightarrow>
     foldl lock_event None (trace s) = m_owner s \<and>
     (\<forall>i. m_owner s = Some (Worker i) \<longleftrightarrow> holding (threads s i)) \<and>
     m_owner s \<noteq> Some Owner \<and>
     unlocked_accesses None (trace s) = filter outside_lock (trace s)"

subsection \<open>The queue\<close>

text \<open>
  The jobs popped and the jobs still queued are the jobs pushed, in that order; and
  the jobs pushed are the wrappers of the tasks of the heap, in the order of their
  addresses.
\<close>

definition fifo_inv :: "'v ThreadPool \<Rightarrow> bool" where
  "fifo_inv s \<longleftrightarrow>
     popped_jobs (trace s) @ q s = pushed_jobs (trace s) \<and>
     pushed_jobs (trace s) = map Wrapper [0..<length (heap s)]"


section \<open>The task queue is first in, first out\<close>

lemma run_calls_fifo: "fst (run_calls cs xs) @ snd (run_calls cs xs) = xs @ pushed cs"
proof (induction cs arbitrary: xs)
  case Nil
  show ?case by simp
next
  case (Cons c cs)
  show ?case
  proof (cases c)
    case (Push x)
    then show ?thesis
      using Cons.IH [of "safe_queue_push x xs"] by (simp add: safe_queue_push_def)
  next
    case (Pop t)
    show ?thesis
    proof (cases xs)
      case Nil
      then show ?thesis
        using Pop Cons.IH [of "[]"] by (simp add: safe_queue_pop_def safe_queue_empty_def)
    next
      case (Cons y ys)
      then show ?thesis
        using Pop Cons.IH [of ys]
        by (auto simp add: safe_queue_pop_def safe_queue_empty_def split: prod.splits)
    qed
  qed
qed


section \<open>The parts of a step\<close>

lemma emit_simps [simp]:
  "is_shut_down (emit e s) = is_shut_down s" "q (emit e s) = q s"
  "threads (emit e s) = threads s" "n_threads (emit e s) = n_threads s"
  "m_owner (emit e s) = m_owner s" "heap (emit e s) = heap s"
  "in_submit (emit e s) = in_submit s" "dtor (emit e s) = dtor s"
  "dtor_f (emit e s) = dtor_f s" "trace (emit e s) = trace s @ [e]"
  by (simp_all add: emit_def)

lemma goto_simps [simp]:
  "is_shut_down (goto i pc s) = is_shut_down s" "q (goto i pc s) = q s"
  "threads (goto i pc s) = (threads s)(i := pc)" "n_threads (goto i pc s) = n_threads s"
  "m_owner (goto i pc s) = m_owner s" "heap (goto i pc s) = heap s"
  "in_submit (goto i pc s) = in_submit s" "dtor (goto i pc s) = dtor s"
  "dtor_f (goto i pc s) = dtor_f s" "trace (goto i pc s) = trace s"
  by (simp_all add: goto_def)

lemma submit_push_simps [simp]:
  "is_shut_down (submit_push t f s) = is_shut_down s"
  "q (submit_push t f s) = q s @ [Wrapper (length (heap s))]"
  "threads (submit_push t f s) = threads s"
  "n_threads (submit_push t f s) = n_threads s"
  "m_owner (submit_push t f s) = m_owner s"
  "heap (submit_push t f s) = heap s @ [\<lparr>task = f, shared_state = None\<rparr>]"
  "in_submit (submit_push t f s) = (in_submit s)(t \<mapsto> length (heap s))"
  "dtor (submit_push t f s) = dtor s"
  "dtor_f (submit_push t f s) = dtor_f s"
  "trace (submit_push t f s) = trace s @ [Pushed t (length (heap s))]"
  by (simp_all add: submit_push_def Let_def safe_queue_push_def)

lemma notify_all_simps [simp]:
  "is_shut_down (notify_all s) = is_shut_down s" "q (notify_all s) = q s"
  "threads (notify_all s) i = (if i < n_threads s \<and> threads s i = W_waiting then W_lock else threads s i)"
  "n_threads (notify_all s) = n_threads s"
  "m_owner (notify_all s) = m_owner s" "heap (notify_all s) = heap s"
  "in_submit (notify_all s) = in_submit s" "dtor (notify_all s) = dtor s"
  "dtor_f (notify_all s) = dtor_f s" "trace (notify_all s) = trace s"
  by (simp_all add: notify_all_def waiting_def)

lemma in_waiting [simp]: "i \<in> set (waiting s) \<longleftrightarrow> i < n_threads s \<and> threads s i = W_waiting"
  by (auto simp: waiting_def)

lemma notify_one_Some:
  "notify_one w s = Some s' \<Longrightarrow>
     (w = None \<and> waiting s = [] \<and> s' = s) \<or>
     (\<exists>i. w = Some i \<and> i < n_threads s \<and> threads s i = W_waiting \<and> s' = goto i W_lock s)"
  by (auto simp: notify_one_def split: option.splits if_splits)

section \<open>Jobs are called once\<close>

lemma wf_init: "wf (ThreadPool_init n)"
  by (simp add: wf_def ThreadPool_init_def)

lemma wfI:
  assumes "distinct (q s)"
    and "\<And>j. j \<in> set (q s) \<Longrightarrow> pending s j"
    and "\<And>i j. threads s i = W_call j \<Longrightarrow> pending s j"
    and "\<And>i j. threads s i = W_call j \<Longrightarrow> j \<notin> set (q s)"
    and "\<And>i k j. threads s i = W_call j \<Longrightarrow> threads s k = W_call j \<Longrightarrow> k = i"
    and "\<And>i. threads s i \<noteq> W_terminated"
  shows "wf s"
  unfolding wf_def using assms by blast

lemma wf_distinct: "wf s \<Longrightarrow> distinct (q s)"
  by (simp add: wf_def)

lemma wf_q_pending: "wf s \<Longrightarrow> j \<in> set (q s) \<Longrightarrow> pending s j"
  by (simp add: wf_def)

lemma wf_call_pending: "wf s \<Longrightarrow> threads s i = W_call j \<Longrightarrow> pending s j"
  unfolding wf_def by blast

lemma wf_call_notin: "wf s \<Longrightarrow> threads s i = W_call j \<Longrightarrow> j \<notin> set (q s)"
  unfolding wf_def by blast

lemma wf_call_unique:
  "wf s \<Longrightarrow> threads s i = W_call j \<Longrightarrow> threads s k = W_call j \<Longrightarrow> k = i"
  unfolding wf_def by blast

lemma wf_not_terminated: "wf s \<Longrightarrow> threads s i \<noteq> W_terminated"
  by (simp add: wf_def)

lemma pending_emit [simp]: "pending (emit e s) j = pending s j"
  by (cases j) simp_all

lemma pending_goto [simp]: "pending (goto i pc s) j = pending s j"
  by (cases j) simp_all

lemma pending_upd [simp]:
  "pending (s\<lparr>m_owner := x\<rparr>) j = pending s j"
  "pending (s\<lparr>q := y\<rparr>) j = pending s j"
  "pending (s\<lparr>dtor := z\<rparr>) j = pending s j"
  "pending (s\<lparr>dtor_f := u\<rparr>) j = pending s j"
  "pending (s\<lparr>in_submit := v\<rparr>) j = pending s j"
  "pending (s\<lparr>is_shut_down := b\<rparr>) j = pending s j"
  by (cases j; simp)+

lemma pending_notify_all [simp]: "pending (notify_all s) j = pending s j"
  by (cases j) simp_all

lemma pending_push:
  "pending (submit_push t f s) j \<longleftrightarrow> pending s j \<or> j = Wrapper (length (heap s))"
  by (cases j) (auto simp: nth_append)

lemma pending_not_fresh: "pending s j \<Longrightarrow> j \<noteq> Wrapper (length (heap s))"
  by (cases j) auto

lemma pending_heap_upd:
  "j \<noteq> Wrapper p \<Longrightarrow> pending (s\<lparr>heap := (heap s)[p := pt]\<rparr>) j = pending s j"
  by (cases j) auto

lemma wf_submit_push:
  assumes "wf s"
  shows "wf (submit_push t f s)"
proof (rule wfI)
  show "distinct (q (submit_push t f s))"
    using wf_distinct [OF assms] wf_q_pending [OF assms] pending_not_fresh by auto
  show "pending (submit_push t f s) j" if "j \<in> set (q (submit_push t f s))" for j
    using that wf_q_pending [OF assms] by (auto simp: pending_push)
  show "pending (submit_push t f s) j" if "threads (submit_push t f s) i = W_call j" for i j
    using that wf_call_pending [OF assms] by (auto simp: pending_push)
  show "j \<notin> set (q (submit_push t f s))" if "threads (submit_push t f s) i = W_call j" for i j
    using that wf_call_notin [OF assms, of i j] wf_call_pending [OF assms, of i j]
      pending_not_fresh [of s j] by auto
  show "k = i"
    if "threads (submit_push t f s) i = W_call j" "threads (submit_push t f s) k = W_call j"
    for i k j
    using that wf_call_unique [OF assms] by auto
  show "threads (submit_push t f s) i \<noteq> W_terminated" for i
    using wf_not_terminated [OF assms] by simp
qed

lemma wf_upd [simp]:
  "wf (s\<lparr>m_owner := x\<rparr>) = wf s"
  "wf (s\<lparr>dtor := z\<rparr>) = wf s"
  "wf (s\<lparr>dtor_f := u\<rparr>) = wf s"
  "wf (s\<lparr>in_submit := v\<rparr>) = wf s"
  "wf (s\<lparr>is_shut_down := b\<rparr>) = wf s"
  "wf (emit e s) = wf s"
  by (simp_all add: wf_def)

lemma wf_goto_plain:
  assumes "wf s" "threads s i \<noteq> W_terminated \<Longrightarrow> pc \<noteq> W_terminated" "\<And>j. pc \<noteq> W_call j"
  shows "wf (goto i pc s)"
proof (rule wfI)
  show "distinct (q (goto i pc s))"
    using wf_distinct [OF assms(1)] by simp
  show "pending (goto i pc s) j" if "j \<in> set (q (goto i pc s))" for j
    using that wf_q_pending [OF assms(1)] by simp
  show "pending (goto i pc s) j" if "threads (goto i pc s) k = W_call j" for k j
    using that wf_call_pending [OF assms(1), of k j] assms(3) by (cases "k = i") auto
  show "j \<notin> set (q (goto i pc s))" if "threads (goto i pc s) k = W_call j" for k j
    using that wf_call_notin [OF assms(1), of k j] assms(3) by (cases "k = i") auto
  show "k = l"
    if "threads (goto i pc s) l = W_call j" "threads (goto i pc s) k = W_call j" for l k j
  proof -
    have "l \<noteq> i" using that(1) assms(3) [of j] by auto
    moreover have "k \<noteq> i" using that(2) assms(3) [of j] by auto
    ultimately show ?thesis
      using that wf_call_unique [OF assms(1), of l j k] by simp
  qed
  show "threads (goto i pc s) k \<noteq> W_terminated" for k
    using wf_not_terminated [OF assms(1)] assms(2) by simp
qed

lemma wf_notify_all:
  assumes "wf s"
  shows "wf (notify_all s)"
proof (rule wfI)
  show "distinct (q (notify_all s))"
    using wf_distinct [OF assms] by simp
  show "pending (notify_all s) j" if "j \<in> set (q (notify_all s))" for j
    using that wf_q_pending [OF assms] by simp
  show "pending (notify_all s) j" if "threads (notify_all s) k = W_call j" for k j
    using that wf_call_pending [OF assms, of k j] by (simp split: if_splits)
  show "j \<notin> set (q (notify_all s))" if "threads (notify_all s) k = W_call j" for k j
    using that wf_call_notin [OF assms, of k j] by (simp split: if_splits)
  show "k = l"
    if "threads (notify_all s) l = W_call j" "threads (notify_all s) k = W_call j" for l k j
    using that wf_call_unique [OF assms, of l j k] by (simp split: if_splits)
  show "threads (notify_all s) k \<noteq> W_terminated" for k
    using wf_not_terminated [OF assms] by simp
qed

lemma wf_pop:
  assumes "wf s" "q s = j # js"
  shows "wf (goto i (W_call j) (s\<lparr>q := js\<rparr>))"
proof (rule wfI)
  let ?s = "goto i (W_call j) (s\<lparr>q := js\<rparr>)"
  have d: "distinct (j # js)" using wf_distinct [OF assms(1)] assms(2) by simp
  have nc: "threads s k \<noteq> W_call j" for k
    using wf_call_notin [OF assms(1), of k j] assms(2) by auto
  show "distinct (q ?s)" using d by simp
  show "pending ?s j'" if "j' \<in> set (q ?s)" for j'
    using that wf_q_pending [OF assms(1), of j'] assms(2) by simp
  show "pending ?s j'" if "threads ?s k = W_call j'" for k j'
    using that wf_call_pending [OF assms(1), of k j'] wf_q_pending [OF assms(1), of j] assms(2)
    by (simp split: if_splits)
  show "j' \<notin> set (q ?s)" if "threads ?s k = W_call j'" for k j'
    using that wf_call_notin [OF assms(1), of k j'] assms(2) d by (auto split: if_splits)
  show "k = l" if "threads ?s l = W_call j'" "threads ?s k = W_call j'" for l k j'
    using that wf_call_unique [OF assms(1), of l j' k] nc by (auto split: if_splits)
  show "threads ?s k \<noteq> W_terminated" for k
    using wf_not_terminated [OF assms(1)] by simp
qed

lemma wf_call:
  assumes "wf s" "threads s i = W_call (Wrapper p)"
  shows "p < length (heap s) \<and> shared_state (heap s ! p) = None"
  using wf_call_pending [OF assms] by simp

lemma wf_not_empty_function: "wf s \<Longrightarrow> threads s i \<noteq> W_call Empty_function"
  using wf_call_pending [of s i Empty_function] by auto

lemma wf_called:
  assumes "wf s" "threads s i = W_call (Wrapper p)"
  shows "wf (goto i W_loop (s\<lparr>heap := (heap s)[p := pt]\<rparr>))"
proof (rule wfI)
  let ?s = "goto i W_loop (s\<lparr>heap := (heap s)[p := pt]\<rparr>)"
  have pe: "pending ?s j = pending s j" if "j \<noteq> Wrapper p" for j
    using that by (cases j) auto
  show "distinct (q ?s)" using wf_distinct [OF assms(1)] by simp
  show "pending ?s j" if "j \<in> set (q ?s)" for j
  proof -
    have "j \<noteq> Wrapper p" using that wf_call_notin [OF assms] by auto
    then show ?thesis using pe that wf_q_pending [OF assms(1), of j] by simp
  qed
  show "pending ?s j" if "threads ?s k = W_call j" for k j
  proof -
    have k: "k \<noteq> i" "threads s k = W_call j" using that by (auto split: if_splits)
    then have "j \<noteq> Wrapper p" using wf_call_unique [OF assms, of k] by auto
    then show ?thesis using pe wf_call_pending [OF assms(1) k(2)] by simp
  qed
  show "j \<notin> set (q ?s)" if "threads ?s k = W_call j" for k j
    using that wf_call_notin [OF assms(1), of k j] by (simp split: if_splits)
  show "k = l" if "threads ?s l = W_call j" "threads ?s k = W_call j" for l k j
    using that wf_call_unique [OF assms(1), of l j k] by (simp split: if_splits)
  show "threads ?s k \<noteq> W_terminated" for k
    using wf_not_terminated [OF assms(1)] by simp
qed

lemma wf_worker_step:
  assumes "wf s" "worker_step i s = Some s'"
  shows "wf s'"
proof (cases "threads s i")
  case W_loop
  then show ?thesis
    using assms by (auto simp: worker_step_def intro!: wf_goto_plain)
next
  case W_lock
  then show ?thesis
    using assms wf_goto_plain [of "s\<lparr>m_owner := Some (Worker i)\<rparr>" i W_pred]
    by (auto simp: worker_step_def split: option.splits)
next
  case W_pred
  then show ?thesis
    using assms by (auto simp: worker_step_def Let_def intro!: wf_goto_plain)
next
  case W_block
  then show ?thesis
    using assms wf_goto_plain [of "s\<lparr>m_owner := None\<rparr>" i W_waiting]
    by (auto simp: worker_step_def)
next
  case W_waiting
  then show ?thesis using assms by (simp add: worker_step_def)
next
  case W_unlock
  then show ?thesis
    using assms wf_goto_plain [of "s\<lparr>m_owner := None\<rparr>" i W_pop]
    by (auto simp: worker_step_def)
next
  case W_pop
  show ?thesis
  proof (cases "q s")
    case Nil
    then have "s' = emit (Popped i None) (goto i W_loop (s\<lparr>q := []\<rparr>))"
      using assms(2) W_pop by (simp add: worker_step_def safe_queue_pop_def safe_queue_empty_def)
    moreover have "s\<lparr>q := []\<rparr> = s" using Nil by simp
    ultimately show ?thesis using assms(1) wf_goto_plain [of s i W_loop] by simp
  next
    case (Cons j js)
    then have "s' = emit (Popped i (Some j)) (goto i (W_call j) (s\<lparr>q := js\<rparr>))"
      using assms(2) W_pop by (simp add: worker_step_def safe_queue_pop_def safe_queue_empty_def)
    then show ?thesis using wf_pop [OF assms(1) Cons] by simp
  qed
next
  case (W_call j)
  then obtain p where j: "j = Wrapper p"
    using wf_not_empty_function [OF assms(1), of i] by (cases j) auto
  have p: "p < length (heap s)" "shared_state (heap s ! p) = None"
    using wf_call [OF assms(1)] W_call j by auto
  then have "s' = emit (Called i p)
      (goto i W_loop (s\<lparr>heap := (heap s)[p := (heap s ! p)\<lparr>shared_state := Some (task (heap s ! p) ())\<rparr>]\<rparr>))"
    using assms(2) W_call j by (simp add: worker_step_def packaged_task_call_def)
  then show ?thesis using wf_called [OF assms(1)] W_call j by simp
next
  case W_stopped
  then show ?thesis using assms by (simp add: worker_step_def)
next
  case W_terminated
  then show ?thesis using assms by (simp add: worker_step_def)
qed

lemma wf_notify_one: "wf s \<Longrightarrow> notify_one w s = Some s' \<Longrightarrow> wf s'"
  by (auto dest!: notify_one_Some intro!: wf_goto_plain)

lemma wf_submit_notify: "wf s \<Longrightarrow> submit_notify t w s = Some (p, s') \<Longrightarrow> wf s'"
  by (auto simp: submit_notify_def split: option.splits dest: wf_notify_one)

lemma wf_dtor_step: "wf s \<Longrightarrow> dtor_step s = Some s' \<Longrightarrow> wf s'"
  by (auto simp: dtor_step_def wf_submit_push wf_notify_all
      split: dtor_pc.splits option.splits if_splits outcome.splits)

lemma wf_step:
  assumes "wf s" "step l s = Some s'"
  shows "wf s'"
proof (cases l)
  case (Run_worker i)
  then show ?thesis using assms wf_worker_step by (auto simp: step_def split: if_splits)
next
  case (Spurious_wake i)
  then show ?thesis
    using assms by (auto simp: step_def split: if_splits intro!: wf_goto_plain)
next
  case (Begin_submit c f)
  then show ?thesis using assms wf_submit_push by (auto simp: step_def split: if_splits)
next
  case (End_submit t w)
  then show ?thesis
    using assms wf_submit_notify
    by (auto simp: step_def split: if_splits option.splits prod.splits)
next
  case Run_dtor
  then show ?thesis using assms wf_dtor_step by (simp add: step_def)
qed

lemma wf_run: "wf s \<Longrightarrow> run ls s = Some s' \<Longrightarrow> wf s'"
proof (induction ls arbitrary: s)
  case Nil
  then show ?case by simp
next
  case (Cons l ls)
  then show ?case by (auto split: option.splits dest: wf_step)
qed


section \<open>What never changes\<close>

lemma n_threads_worker_step: "worker_step i s = Some s' \<Longrightarrow> n_threads s' = n_threads s"
  by (auto simp: worker_step_def Let_def
      split: worker_pc.splits option.splits prod.splits if_splits job.splits sum.splits)

lemma n_threads_notify_one: "notify_one w s = Some s' \<Longrightarrow> n_threads s' = n_threads s"
  by (auto dest!: notify_one_Some)

lemma n_threads_submit_notify: "submit_notify t w s = Some (p, s') \<Longrightarrow> n_threads s' = n_threads s"
  by (auto simp: submit_notify_def split: option.splits dest: n_threads_notify_one)

lemma n_threads_dtor_step: "dtor_step s = Some s' \<Longrightarrow> n_threads s' = n_threads s"
  by (auto simp: dtor_step_def split: dtor_pc.splits option.splits if_splits outcome.splits)

lemma n_threads_step: "step l s = Some s' \<Longrightarrow> n_threads s' = n_threads s"
  by (cases l)
    (auto simp: step_def split: if_splits option.splits prod.splits
      dest: n_threads_worker_step n_threads_submit_notify n_threads_dtor_step)

lemma n_threads_run: "run ls s = Some s' \<Longrightarrow> n_threads s' = n_threads s"
proof (induction ls arbitrary: s)
  case Nil
  then show ?case by simp
next
  case (Cons l ls)
  then show ?case by (auto split: option.splits dest: n_threads_step)
qed

lemma n_threads_init [simp]: "n_threads (ThreadPool_init n) = n"
  by (simp add: ThreadPool_init_def)

lemma ready_worker_step: "ready s p r \<Longrightarrow> worker_step i s = Some s' \<Longrightarrow> ready s' p r"
  by (auto simp: worker_step_def Let_def ready_def packaged_task_call_def nth_list_update
      split: worker_pc.splits option.splits prod.splits if_splits job.splits sum.splits)

lemma ready_notify_one: "ready s p r \<Longrightarrow> notify_one w s = Some s' \<Longrightarrow> ready s' p r"
  by (auto dest!: notify_one_Some simp: ready_def)

lemma ready_submit_notify: "ready s p r \<Longrightarrow> submit_notify t w s = Some (p', s') \<Longrightarrow> ready s' p r"
  by (auto simp: submit_notify_def ready_def split: option.splits dest!: notify_one_Some)

lemma ready_submit_push: "ready s p r \<Longrightarrow> ready (submit_push t f s) p r"
  by (auto simp: ready_def nth_append)

lemma ready_dtor_step: "ready s p r \<Longrightarrow> dtor_step s = Some s' \<Longrightarrow> ready s' p r"
  by (auto simp: dtor_step_def ready_def nth_append
      split: dtor_pc.splits option.splits if_splits outcome.splits)

lemma ready_upd [simp]:
  "ready (s\<lparr>dtor := z, dtor_f := u\<rparr>) p r = ready s p r"
  "ready (goto i pc s) p r = ready s p r"
  by (simp_all add: ready_def)

lemma ready_step:
  assumes "ready s p r" "step l s = Some s'"
  shows "ready s' p r"
proof (cases l)
  case (Run_worker i)
  then show ?thesis
    using assms ready_worker_step by (auto simp: step_def split: if_splits)
next
  case (Spurious_wake i)
  then show ?thesis using assms by (auto simp: step_def split: if_splits)
next
  case (Begin_submit c f)
  then show ?thesis
    using assms ready_submit_push by (auto simp: step_def split: if_splits)
next
  case (End_submit t w)
  then show ?thesis
    using assms ready_submit_notify
    by (auto simp: step_def split: if_splits option.splits prod.splits)
next
  case Run_dtor
  then show ?thesis using assms ready_dtor_step by (simp add: step_def)
qed

lemma ready_run: "ready s p r \<Longrightarrow> run ls s = Some s' \<Longrightarrow> ready s' p r"
proof (induction ls arbitrary: s)
  case Nil
  then show ?case by simp
next
  case (Cons l ls)
  then show ?case by (auto split: option.splits dest: ready_step)
qed


text \<open>The definitions that evaluate a run on a given schedule.\<close>

lemmas run_defs = step_def worker_step_def dtor_step_def submit_notify_def notify_one_def
  notify_all_def submit_push_def emit_def goto_def waiting_def ThreadPool_init_def
  safe_queue_pop_def safe_queue_push_def safe_queue_empty_def packaged_task_call_def
  future_get_def noop_def Let_def


section \<open>Steps that leave the destructor alone\<close>

lemma dtor_inv_frame:
  assumes "dtor_inv s" "frame s s'"
  shows "dtor_inv s'"
proof -
  have same: "dtor s' = dtor s" "dtor_f s' = dtor_f s" "in_submit s' Owner = in_submit s Owner"
    "is_shut_down s' = is_shut_down s" "n_threads s' = n_threads s"
    "owner_events (trace s') = owner_events (trace s)" "sentinel s' = sentinel s"
    using assms(2) by (simp_all add: frame_def sentinel_def)
  have heap: "p < length (heap s')" "task (heap s' ! p) = task (heap s ! p)"
    if "p < length (heap s)" for p
    using that assms(2) by (auto simp: frame_def)
  have rdy: "ready s' p r" if "ready s p r" for p r
    using that assms(2) by (simp add: frame_def)
  have stop: "threads s' k = W_stopped" if "threads s k = W_stopped" for k
    using that assms(2) by (simp add: frame_def)
  show ?thesis
    using assms(1) unfolding dtor_inv_def same
    by (auto simp: heap rdy stop)
qed


lemma owner_events_snoc [simp]:
  "owner_events (es @ [e]) = (if owner_event e then owner_events es @ [e] else owner_events es)"
  by (simp add: owner_events_def)

lemma owner_events_Nil [simp]: "owner_events [] = []"
  by (simp add: owner_events_def)

lemma ready_emit [simp]: "ready (emit e s) p r = ready s p r"
  by (simp add: ready_def)

lemma frame_refl: "frame s s"
  by (simp add: frame_def)

lemma frame_goto:
  "threads s i \<noteq> W_stopped \<Longrightarrow> frame s (goto i pc s)"
  by (auto simp: frame_def)

lemma frame_worker_step:
  assumes "worker_step i s = Some s'"
  shows "frame s s'"
proof (cases "threads s i")
  case (W_call j)
  show ?thesis
  proof (cases j)
    case Empty_function
    then show ?thesis using assms W_call by (auto simp: worker_step_def frame_def)
  next
    case (Wrapper p)
    then show ?thesis
      using assms W_call
      by (auto simp: worker_step_def frame_def packaged_task_call_def ready_def nth_list_update
          split: if_splits option.splits)
  qed
next
  case W_pop
  then show ?thesis
    using assms
    by (auto simp: worker_step_def frame_def ready_def split: prod.splits if_splits)
qed (use assms in \<open>auto simp: worker_step_def frame_def ready_def Let_def split: option.splits if_splits\<close>)

lemma frame_notify_one: "notify_one w s = Some s' \<Longrightarrow> frame s s'"
  by (auto dest!: notify_one_Some simp: frame_refl frame_goto)

lemma frame_client_push: "frame s (submit_push (Client c) f s)"
  by (auto simp: frame_def ready_def nth_append)

lemma frame_client_notify:
  assumes "submit_notify t w s = Some (p, s')" "t \<noteq> Owner"
  shows "frame s s'"
proof -
  obtain s1 where s1: "notify_one w s = Some s1"
    and s': "s' = emit (Notified_one t) (s1\<lparr>in_submit := (in_submit s1)(t := None)\<rparr>)"
    using assms by (auto simp: submit_notify_def split: option.splits)
  have "frame s s1" using frame_notify_one [OF s1] .
  then show ?thesis unfolding s' using assms(2) by (auto simp: frame_def ready_def)
qed

lemma results_ok_init: "results_ok (ThreadPool_init n)"
  by (simp add: results_ok_def ready_def ThreadPool_init_def)

lemma results_ok_upd [simp]:
  "results_ok (emit e s) = results_ok s"
  "results_ok (goto i pc s) = results_ok s"
  "results_ok (s\<lparr>dtor := z\<rparr>) = results_ok s"
  "results_ok (s\<lparr>dtor_f := u\<rparr>) = results_ok s"
  "results_ok (s\<lparr>in_submit := v\<rparr>) = results_ok s"
  "results_ok (s\<lparr>is_shut_down := b\<rparr>) = results_ok s"
  "results_ok (s\<lparr>m_owner := x\<rparr>) = results_ok s"
  "results_ok (s\<lparr>q := y\<rparr>) = results_ok s"
  "results_ok (notify_all s) = results_ok s"
  by (simp_all add: results_ok_def ready_def)

lemma results_ok_push: "results_ok s \<Longrightarrow> results_ok (submit_push t f s)"
  by (auto simp: results_ok_def ready_def nth_append split: if_splits)

lemma results_ok_worker_step:
  assumes "results_ok s" "worker_step i s = Some s'"
  shows "results_ok s'"
proof (cases "threads s i")
  case (W_call j)
  show ?thesis
  proof (cases j)
    case Empty_function
    then show ?thesis using assms W_call by (auto simp: worker_step_def)
  next
    case (Wrapper p)
    then show ?thesis
      using assms W_call
      by (auto simp: worker_step_def packaged_task_call_def results_ok_def ready_def
          nth_list_update split: if_splits option.splits)
  qed
next
  case W_pop
  then show ?thesis
    using assms by (auto simp: worker_step_def split: prod.splits if_splits)
qed (use assms in \<open>auto simp: worker_step_def Let_def split: option.splits if_splits\<close>)

lemma results_ok_notify_one: "results_ok s \<Longrightarrow> notify_one w s = Some s' \<Longrightarrow> results_ok s'"
  by (auto dest!: notify_one_Some)

lemma results_ok_submit_notify:
  "results_ok s \<Longrightarrow> submit_notify t w s = Some (p, s') \<Longrightarrow> results_ok s'"
  by (auto simp: submit_notify_def split: option.splits dest: results_ok_notify_one)

lemma results_ok_dtor_step: "results_ok s \<Longrightarrow> dtor_step s = Some s' \<Longrightarrow> results_ok s'"
  by (auto simp: dtor_step_def results_ok_push
      split: dtor_pc.splits option.splits if_splits outcome.splits)

lemma results_ok_step:
  assumes "results_ok s" "step l s = Some s'"
  shows "results_ok s'"
proof (cases l)
  case (Run_worker i)
  then show ?thesis
    using assms results_ok_worker_step by (auto simp: step_def split: if_splits)
next
  case (Spurious_wake i)
  then show ?thesis using assms by (auto simp: step_def split: if_splits)
next
  case (Begin_submit c f)
  then show ?thesis
    using assms results_ok_push by (auto simp: step_def split: if_splits)
next
  case (End_submit t w)
  then show ?thesis
    using assms results_ok_submit_notify
    by (auto simp: step_def split: if_splits option.splits prod.splits)
next
  case Run_dtor
  then show ?thesis using assms results_ok_dtor_step by (simp add: step_def)
qed


section \<open>The destructor keeps its order\<close>

lemma dtor_inv_init: "dtor_inv (ThreadPool_init n)"
  by (simp add: dtor_inv_def ThreadPool_init_def)

lemma dtor_inv_dtor_step:
  assumes "dtor_inv s" "results_ok s" "dtor_step s = Some s'"
  shows "dtor_inv s'"
proof (cases "dtor s")
  case D_start
  then have "s' = (submit_push Owner noop s)\<lparr>dtor := D_submit\<rparr>"
    using assms(3) by (simp add: dtor_step_def)
  then show ?thesis
    using assms(1) D_start by (simp add: dtor_inv_def sentinel_def)
next
  case D_submit
  then show ?thesis using assms(3) by (simp add: dtor_step_def)
next
  case D_get
  then obtain f where f: "sentinel s = Some f" "f < length (heap s)" "task (heap s ! f) = noop"
    "owner_events (trace s) = teardown_done f (n_threads s) D_get"
    using assms(1) by (auto simp: dtor_inv_def)
  have df: "dtor_f s = Some f" using f(1) D_get by (simp add: sentinel_def)
  obtain r where r: "shared_state (heap s ! f) = Some r"
    using assms(3) D_get df f(2) by (auto simp: dtor_step_def future_get_def split: option.splits)
  then have "ready s f r" using f(2) by (simp add: ready_def)
  then have "r = task (heap s ! f) ()"
    using assms(2) unfolding results_ok_def by blast
  then have rv: "r = Returned_void" "ready s f Returned_void"
    using f(3) \<open>ready s f r\<close> by (simp_all add: noop_def)
  then have "s' = emit (Got f) (s\<lparr>dtor := D_set_flag\<rparr>)"
    using assms(3) D_get df f(2) r by (simp add: dtor_step_def future_get_def)
  then show ?thesis
    using assms(1) D_get f df rv(2) by (simp add: dtor_inv_def sentinel_def ready_def)
next
  case D_set_flag
  then have "s' = emit Flag_set (s\<lparr>is_shut_down := True, dtor := D_notify_all\<rparr>)"
    using assms(3) by (simp add: dtor_step_def)
  then show ?thesis
    using assms(1) D_set_flag by (simp add: dtor_inv_def sentinel_def ready_def)
next
  case D_notify_all
  then have "s' = emit Notified_all ((notify_all s)\<lparr>dtor := D_join 0\<rparr>)"
    using assms(3) by (simp add: dtor_step_def)
  then show ?thesis
    using assms(1) D_notify_all by (simp add: dtor_inv_def sentinel_def ready_def)
next
  case (D_join k)
  then obtain f where f: "sentinel s = Some f" "f < length (heap s)" "task (heap s ! f) = noop"
    "owner_events (trace s) = teardown_done f (n_threads s) (D_join k)" "ready s f Returned_void"
    using assms(1) by (auto simp: dtor_inv_def)
  have k: "k \<le> n_threads s" "\<forall>i<k. threads s i = W_stopped" "is_shut_down s"
    "in_submit s Owner = None"
    using assms(1) D_join by (auto simp: dtor_inv_def)
  have df: "dtor_f s = Some f" using f(1) D_join by (simp add: sentinel_def)
  show ?thesis
  proof (cases "k < n_threads s")
    case True
    then have st: "threads s k = W_stopped" "s' = emit (Joined k) (s\<lparr>dtor := D_join (Suc k)\<rparr>)"
      using assms(3) D_join by (auto simp: dtor_step_def split: if_splits)
    have "\<forall>i<Suc k. threads s i = W_stopped" using k(2) st(1) by (auto simp: less_Suc_eq)
    then show ?thesis
      using True f df k st(2) by (simp add: dtor_inv_def sentinel_def ready_def)
  next
    case False
    then have "k = n_threads s" "s' = emit Destroyed (s\<lparr>dtor := D_destroyed\<rparr>)"
      using assms(3) D_join k(1) by (auto simp: dtor_step_def)
    then show ?thesis
      using f df k by (simp add: dtor_inv_def sentinel_def ready_def teardown_sequence_def)
  qed
next
  case D_destroyed
  then show ?thesis using assms(3) by (simp add: dtor_step_def)
next
  case D_terminated
  then show ?thesis using assms(3) by (simp add: dtor_step_def)
qed

lemma dtor_inv_owner_notify:
  assumes "dtor_inv s" "submit_notify Owner w s = Some (p, s1)"
  shows "dtor_inv (s1\<lparr>dtor := D_get, dtor_f := Some p\<rparr>)"
proof -
  obtain s0 where s0: "notify_one w s = Some s0" and p: "in_submit s Owner = Some p"
    and s1: "s1 = emit (Notified_one Owner) (s0\<lparr>in_submit := (in_submit s0)(Owner := None)\<rparr>)"
    using assms(2) by (auto simp: submit_notify_def split: option.splits)
  have d: "dtor s = D_submit" using assms(1) p by (auto simp: dtor_inv_def)
  have s: "sentinel s = Some p" using d p by (simp add: sentinel_def)
  have fr: "frame s s0" using frame_notify_one [OF s0] .
  have inv0: "dtor_inv s0" using dtor_inv_frame [OF assms(1) fr] .
  have d0: "dtor s0 = D_submit" "in_submit s0 Owner = Some p"
    using fr d p by (simp_all add: frame_def)
  show ?thesis
    using inv0 d0 unfolding s1 by (simp add: dtor_inv_def sentinel_def ready_def)
qed

lemma dtor_inv_step:
  assumes "dtor_inv s" "results_ok s" "step l s = Some s'"
  shows "dtor_inv s'"
proof (cases l)
  case (Run_worker i)
  then have "frame s s'"
    using assms(3) frame_worker_step by (auto simp: step_def split: if_splits)
  then show ?thesis using dtor_inv_frame [OF assms(1)] by simp
next
  case (Spurious_wake i)
  then have "frame s s'"
    using assms(3) by (auto simp: step_def frame_goto split: if_splits)
  then show ?thesis using dtor_inv_frame [OF assms(1)] by simp
next
  case (Begin_submit c f)
  then have "frame s s'"
    using assms(3) frame_client_push by (auto simp: step_def split: if_splits)
  then show ?thesis using dtor_inv_frame [OF assms(1)] by simp
next
  case (End_submit t w)
  show ?thesis
  proof (cases "t = Owner")
    case True
    then show ?thesis
      using assms(1,3) End_submit dtor_inv_owner_notify
      by (auto simp: step_def split: if_splits option.splits prod.splits)
  next
    case False
    then have "frame s s'"
      using assms(3) End_submit frame_client_notify
      by (auto simp: step_def split: if_splits option.splits prod.splits)
    then show ?thesis using dtor_inv_frame [OF assms(1)] by simp
  qed
next
  case Run_dtor
  then show ?thesis using assms dtor_inv_dtor_step by (simp add: step_def)
qed

lemma invs_run:
  "dtor_inv s \<Longrightarrow> results_ok s \<Longrightarrow> run ls s = Some s' \<Longrightarrow> dtor_inv s' \<and> results_ok s'"
proof (induction ls arbitrary: s)
  case Nil
  then show ?case by simp
next
  case (Cons l ls)
  then show ?case
    by (auto split: option.splits dest: dtor_inv_step results_ok_step)
qed

lemma teardown_done_prefix:
  assumes "\<And>k. pc = D_join k \<Longrightarrow> k \<le> n"
  shows "\<exists>rest. teardown_sequence f n = teardown_done f n pc @ rest"
proof (cases pc)
  case (D_join k)
  then have "k \<le> n" using assms by simp
  then have "[0..<n] = [0..<k] @ [k..<n]"
    using upt_add_eq_append [of 0 k "n - k"] by simp
  then show ?thesis using D_join by (simp add: teardown_sequence_def)
qed (simp_all add: teardown_sequence_def)

lemma owner_event_mem:
  "e \<in> set es \<Longrightarrow> owner_event e \<Longrightarrow> e \<in> set (owner_events es)"
  by (simp add: owner_events_def)

lemma owner_events_subset: "e \<in> set (owner_events es) \<Longrightarrow> e \<in> set es"
  by (simp add: owner_events_def)

lemma teardown_events:
  assumes "run ls (ThreadPool_init n) = Some s"
  shows "\<exists>f rest. teardown_sequence f n = owner_events (trace s) @ rest \<and>
           (Pushed Owner f \<in> set (trace s) \<longrightarrow> f < length (heap s) \<and> task (heap s ! f) = noop) \<and>
           (Got f \<in> set (trace s) \<longrightarrow>
              f < length (heap s) \<and> future_get (heap s ! f) = Some Returned_void) \<and>
           (Flag_set \<in> set (trace s) \<longleftrightarrow> is_shut_down s) \<and>
           (\<forall>i. Joined i \<in> set (trace s) \<longrightarrow> i < n \<and> threads s i = W_stopped) \<and>
           (Destroyed \<in> set (trace s) \<longrightarrow> (\<forall>i<n. threads s i = W_stopped)) \<and>
           (dtor s \<noteq> D_start \<longrightarrow>
              sentinel s = Some f \<and> f < length (heap s) \<and> task (heap s ! f) = noop \<and>
              owner_events (trace s) = teardown_done f n (dtor s))"
proof -
  have inv: "dtor_inv s"
    using invs_run [OF dtor_inv_init results_ok_init assms] by simp
  have n: "n_threads s = n" using n_threads_run [OF assms] by simp
  have mem: "e \<in> set (trace s) \<longleftrightarrow> e \<in> set (owner_events (trace s))" if "owner_event e" for e
    using that owner_event_mem owner_events_subset by blast
  have m: "Pushed Owner f \<in> set (trace s) \<longleftrightarrow> Pushed Owner f \<in> set (owner_events (trace s))"
    "Got f \<in> set (trace s) \<longleftrightarrow> Got f \<in> set (owner_events (trace s))"
    "Flag_set \<in> set (trace s) \<longleftrightarrow> Flag_set \<in> set (owner_events (trace s))"
    "Joined i \<in> set (trace s) \<longleftrightarrow> Joined i \<in> set (owner_events (trace s))"
    "Destroyed \<in> set (trace s) \<longleftrightarrow> Destroyed \<in> set (owner_events (trace s))" for f i
    by (simp_all add: mem)
  show ?thesis
  proof (cases "dtor s = D_start")
    case True
    then have e: "owner_events (trace s) = []" "\<not> is_shut_down s"
      using inv by (auto simp: dtor_inv_def)
    show ?thesis
      unfolding m e(1) using e(2) True by simp
  next
    case False
    then obtain f where f: "f < length (heap s)" "task (heap s ! f) = noop"
      "owner_events (trace s) = teardown_done f n (dtor s)"
      "3 \<le> stage (dtor s) \<longrightarrow> ready s f Returned_void"
      "sentinel s = Some f"
      using inv n by (auto simp: dtor_inv_def)
    have j: "\<And>k. dtor s = D_join k \<Longrightarrow> k \<le> n \<and> (\<forall>i<k. threads s i = W_stopped)"
      and d: "dtor s = D_destroyed \<Longrightarrow> (\<forall>i<n. threads s i = W_stopped)"
      and fl: "is_shut_down s \<longleftrightarrow> 4 \<le> stage (dtor s)"
      and nt: "dtor s \<noteq> D_terminated"
      using inv n by (auto simp: dtor_inv_def)
    obtain rest where rest: "teardown_sequence f n = teardown_done f n (dtor s) @ rest"
      using teardown_done_prefix [of "dtor s" n f] j by blast
    have "(Got f \<in> set (teardown_done f n (dtor s)) \<longrightarrow>
             f < length (heap s) \<and> future_get (heap s ! f) = Some Returned_void) \<and>
          (Flag_set \<in> set (teardown_done f n (dtor s)) \<longleftrightarrow> is_shut_down s) \<and>
          (\<forall>i. Joined i \<in> set (teardown_done f n (dtor s)) \<longrightarrow> i < n \<and> threads s i = W_stopped) \<and>
          (Destroyed \<in> set (teardown_done f n (dtor s)) \<longrightarrow> (\<forall>i<n. threads s i = W_stopped))"
      using f(1,4) j d fl nt
      by (cases "dtor s") (auto simp: teardown_sequence_def ready_def future_get_def)
    then show ?thesis
      unfolding m f(3) using rest f(1,2,5) by blast
  qed
qed


section \<open>A worker calls what it pops\<close>

lemma worker_events_snoc [simp]:
  "worker_events i (es @ [e]) =
     (if worker_event e = Some i then worker_events i es @ [e] else worker_events i es)"
  by (simp add: worker_events_def)

lemma worker_events_Nil [simp]: "worker_events i [] = []"
  by (simp add: worker_events_def)

lemma pops_called_snoc:
  assumes "pops_called i es"
    and "\<And>j. es \<noteq> [] \<Longrightarrow> last es = Popped i (Some j) \<Longrightarrow> \<exists>p. j = Wrapper p \<and> e = Called i p"
  shows "pops_called i (es @ [e])"
  unfolding pops_called_def
proof (intro allI impI)
  fix k j
  assume a: "Suc k < length (es @ [e]) \<and> (es @ [e]) ! k = Popped i (Some j)"
  then have k: "k < length es" by simp
  show "\<exists>p. j = Wrapper p \<and> (es @ [e]) ! Suc k = Called i p"
  proof (cases "Suc k < length es")
    case True
    then show ?thesis
      using a assms(1) by (auto simp: pops_called_def nth_append)
  next
    case False
    then have l: "Suc k = length es" using k by simp
    then have "es \<noteq> []" by auto
    moreover have "length es - 1 = k" using l by simp
    then have "last es = es ! k" using \<open>es \<noteq> []\<close> last_conv_nth [of es] by simp
    moreover have "es ! k = Popped i (Some j)" using a k by (simp add: nth_append)
    ultimately have "last es = Popped i (Some j)" by simp
    then show ?thesis using assms(2) \<open>es \<noteq> []\<close> l by (auto simp: nth_append)
  qed
qed

lemma worker_inv_init: "worker_inv i (ThreadPool_init n)"
  by (simp add: worker_inv_def ThreadPool_init_def pops_called_def)

lemma worker_inv_aside:
  assumes "worker_inv i s" "aside i s s'"
  shows "worker_inv i s'"
proof -
  have same: "worker_events i (trace s') = worker_events i (trace s)"
    "Loop_cond i False \<in> set (trace s') \<longleftrightarrow> Loop_cond i False \<in> set (trace s)"
    and pc: "threads s' i = threads s i \<or> threads s i = W_waiting \<and> threads s' i = W_lock"
    and fl: "is_shut_down s \<longrightarrow> is_shut_down s'"
    using assms(2) by (auto simp: aside_def)
  have st: "threads s' i = W_stopped \<longleftrightarrow> threads s i = W_stopped"
    using pc by auto
  have ca: "threads s' i = W_call j \<longleftrightarrow> threads s i = W_call j" for j
    using pc by auto
  show ?thesis
    using assms(1) fl unfolding worker_inv_def same st ca by blast
qed

lemma aside_refl: "aside i s s"
  by (simp add: aside_def)

lemma aside_other_worker:
  assumes "worker_step k s = Some s'" "k \<noteq> i"
  shows "aside i s s'"
proof (cases "threads s k")
  case (W_call j)
  then show ?thesis
    using assms
    by (cases j)
      (auto simp: worker_step_def aside_def packaged_task_call_def split: if_splits option.splits)
next
  case W_pop
  then show ?thesis
    using assms by (auto simp: worker_step_def aside_def split: prod.splits if_splits)
qed (use assms in \<open>auto simp: worker_step_def aside_def Let_def split: option.splits if_splits\<close>)

lemma aside_goto_wake: "threads s k = W_waiting \<Longrightarrow> aside i s (goto k W_lock s)"
  by (auto simp: aside_def)

lemma aside_notify_one: "notify_one w s = Some s' \<Longrightarrow> aside i s s'"
  by (auto dest!: notify_one_Some simp: aside_refl aside_goto_wake)

lemma aside_submit_notify:
  assumes "submit_notify t w s = Some (p, s')"
  shows "aside i s s'"
proof -
  obtain s1 where s1: "notify_one w s = Some s1"
    and s': "s' = emit (Notified_one t) (s1\<lparr>in_submit := (in_submit s1)(t := None)\<rparr>)"
    using assms by (auto simp: submit_notify_def split: option.splits)
  have "aside i s s1" using aside_notify_one [OF s1] .
  then show ?thesis unfolding s' by (auto simp: aside_def)
qed

lemma aside_submit_push: "aside i s (submit_push t f s)"
  by (simp add: aside_def)

lemma aside_dtor_step: "dtor_step s = Some s' \<Longrightarrow> aside i s s'"
  by (auto simp: dtor_step_def aside_def
      split: dtor_pc.splits option.splits if_splits outcome.splits)

lemma worker_inv_own:
  assumes "worker_inv i s" and "worker_event e = Some i"
    and "trace s' = trace s @ [e]" and "threads s' i = pc"
    and "is_shut_down s' = is_shut_down s" and "threads s i \<noteq> W_stopped"
    and "pc = W_stopped \<longleftrightarrow> e = Loop_cond i False"
    and "pc = W_stopped \<longrightarrow> is_shut_down s"
    and "\<And>j. pc = W_call j \<longleftrightarrow> e = Popped i (Some j)"
    and "\<And>j. threads s i = W_call j \<Longrightarrow> \<exists>p. j = Wrapper p \<and> e = Called i p"
  shows "worker_inv i s'"
proof -
  let ?es = "worker_events i (trace s)"
  have inv: "threads s i = W_stopped \<longleftrightarrow> Loop_cond i False \<in> set (trace s)"
    "\<And>j. threads s i = W_call j \<longleftrightarrow> ?es \<noteq> [] \<and> last ?es = Popped i (Some j)"
    "pops_called i ?es"
    using assms(1) by (auto simp: worker_inv_def)
  have es': "worker_events i (trace s') = ?es @ [e]"
    using assms(2,3) by simp
  have a: "threads s' i = W_stopped \<longleftrightarrow> Loop_cond i False \<in> set (trace s')"
    using assms(3,4,6,7) inv(1) by auto
  have b: "threads s' i = W_stopped \<longrightarrow> is_shut_down s'"
    using assms(4,5,8) by simp
  have c: "threads s' i = W_call j \<longleftrightarrow>
      worker_events i (trace s') \<noteq> [] \<and> last (worker_events i (trace s')) = Popped i (Some j)"
    for j
    unfolding es' using assms(4) assms(9) [of j] by auto
  have d: "pops_called i (worker_events i (trace s'))"
    unfolding es' using pops_called_snoc [OF inv(3)] inv(2) assms(10) by blast
  show ?thesis
    unfolding worker_inv_def using a b c d by blast
qed

lemma worker_inv_own_step:
  assumes "worker_inv i s" "wf s" "worker_step i s = Some s'"
  shows "worker_inv i s'"
proof (cases "threads s i")
  case W_loop
  show ?thesis
  proof (cases "is_shut_down s")
    case True
    then have "s' = emit (Loop_cond i False) (goto i W_stopped s)"
      using assms(3) W_loop by (simp add: worker_step_def)
    then show ?thesis
      using W_loop True
      by (intro worker_inv_own [OF assms(1), where e = "Loop_cond i False" and pc = W_stopped])
        auto
  next
    case False
    then have "s' = emit (Loop_cond i True) (goto i W_lock s)"
      using assms(3) W_loop by (simp add: worker_step_def)
    then show ?thesis
      using W_loop
      by (intro worker_inv_own [OF assms(1), where e = "Loop_cond i True" and pc = W_lock])
        auto
  qed
next
  case W_lock
  then have "s' = emit (Locked i) (goto i W_pred (s\<lparr>m_owner := Some (Worker i)\<rparr>))"
    using assms(3) by (auto simp: worker_step_def split: option.splits)
  then show ?thesis
    using W_lock
    by (intro worker_inv_own [OF assms(1), where e = "Locked i" and pc = W_pred]) auto
next
  case W_pred
  then obtain b pc where "s' = emit (Wait_pred i b) (goto i pc s)" "pc = W_unlock \<or> pc = W_block"
    using assms(3) by (auto simp: worker_step_def Let_def)
  then show ?thesis
    using W_pred
    by (intro worker_inv_own [OF assms(1), where e = "Wait_pred i b" and pc = pc]) auto
next
  case W_block
  then have "s' = emit (Unlocked i) (goto i W_waiting (s\<lparr>m_owner := None\<rparr>))"
    using assms(3) by (auto simp: worker_step_def)
  then show ?thesis
    using W_block
    by (intro worker_inv_own [OF assms(1), where e = "Unlocked i" and pc = W_waiting]) auto
next
  case W_waiting
  then show ?thesis using assms(3) by (simp add: worker_step_def)
next
  case W_unlock
  then have "s' = emit (Unlocked i) (goto i W_pop (s\<lparr>m_owner := None\<rparr>))"
    using assms(3) by (auto simp: worker_step_def)
  then show ?thesis
    using W_unlock
    by (intro worker_inv_own [OF assms(1), where e = "Unlocked i" and pc = W_pop]) auto
next
  case W_pop
  show ?thesis
  proof (cases "q s")
    case Nil
    then have "s' = emit (Popped i None) (goto i W_loop (s\<lparr>q := []\<rparr>))"
      using assms(3) W_pop by (simp add: worker_step_def safe_queue_pop_def safe_queue_empty_def)
    then show ?thesis
      using W_pop
      by (intro worker_inv_own [OF assms(1), where e = "Popped i None" and pc = W_loop]) auto
  next
    case (Cons j js)
    then have "s' = emit (Popped i (Some j)) (goto i (W_call j) (s\<lparr>q := js\<rparr>))"
      using assms(3) W_pop by (simp add: worker_step_def safe_queue_pop_def safe_queue_empty_def)
    then show ?thesis
      using W_pop
      by (intro worker_inv_own [OF assms(1), where e = "Popped i (Some j)" and pc = "W_call j"])
        auto
  qed
next
  case (W_call j)
  then obtain p where j: "j = Wrapper p"
    using wf_not_empty_function [OF assms(2), of i] by (cases j) auto
  have p: "p < length (heap s)" "shared_state (heap s ! p) = None"
    using wf_call [OF assms(2)] W_call j by auto
  have "s' = emit (Called i p)
      (goto i W_loop (s\<lparr>heap := (heap s)[p := (heap s ! p)\<lparr>shared_state := Some (task (heap s ! p) ())\<rparr>]\<rparr>))"
    using assms(3) W_call j p by (simp add: worker_step_def packaged_task_call_def)
  then show ?thesis
    using W_call j
    by (intro worker_inv_own [OF assms(1), where e = "Called i p" and pc = W_loop]) auto
next
  case W_stopped
  then show ?thesis using assms(3) by (simp add: worker_step_def)
next
  case W_terminated
  then show ?thesis using assms(3) by (simp add: worker_step_def)
qed

lemma worker_inv_step:
  assumes "worker_inv i s" "wf s" "step l s = Some s'"
  shows "worker_inv i s'"
proof (cases l)
  case (Run_worker k)
  show ?thesis
  proof (cases "k = i")
    case True
    then show ?thesis
      using assms Run_worker worker_inv_own_step by (auto simp: step_def split: if_splits)
  next
    case False
    then have "aside i s s'"
      using assms(3) Run_worker aside_other_worker by (auto simp: step_def split: if_splits)
    then show ?thesis using worker_inv_aside [OF assms(1)] by simp
  qed
next
  case (Spurious_wake k)
  then have "aside i s s'"
    using assms(3) by (auto simp: step_def aside_goto_wake split: if_splits)
  then show ?thesis using worker_inv_aside [OF assms(1)] by simp
next
  case (Begin_submit c f)
  then have "aside i s s'"
    using assms(3) aside_submit_push by (auto simp: step_def split: if_splits)
  then show ?thesis using worker_inv_aside [OF assms(1)] by simp
next
  case (End_submit t w)
  then obtain p s1 where s1: "submit_notify t w s = Some (p, s1)"
    and s': "s' = s1 \<or> s' = s1\<lparr>dtor := D_get, dtor_f := Some p\<rparr>"
    using assms(3) by (auto simp: step_def split: if_splits option.splits prod.splits)
  have "aside i s s1" using aside_submit_notify [OF s1] .
  then have "aside i s s'" using s' by (auto simp: aside_def)
  then show ?thesis using worker_inv_aside [OF assms(1)] by simp
next
  case Run_dtor
  then have "aside i s s'"
    using assms(3) aside_dtor_step by (auto simp: step_def)
  then show ?thesis using worker_inv_aside [OF assms(1)] by simp
qed

lemma worker_inv_run:
  "worker_inv i s \<Longrightarrow> wf s \<Longrightarrow> run ls s = Some s' \<Longrightarrow> worker_inv i s'"
proof (induction ls arbitrary: s)
  case Nil
  then show ?case by simp
next
  case (Cons l ls)
  then show ?case
    by (auto split: option.splits dest: worker_inv_step wf_step)
qed


section \<open>Who holds the mutex\<close>












lemma lock_inv_dtor_field [simp]:
  "lock_inv (s\<lparr>dtor := z\<rparr>) = lock_inv s"
  "lock_inv (s\<lparr>dtor := z, dtor_f := u\<rparr>) = lock_inv s"
  by (simp_all add: lock_inv_def)





section \<open>The queue of the pool is first in, first out\<close>

lemma jobs_snoc [simp]:
  "popped_jobs (es @ [e]) = popped_jobs es @ popped_job e"
  "pushed_jobs (es @ [e]) = pushed_jobs es @ pushed_job e"
  by (simp_all add: popped_jobs_def pushed_jobs_def)

lemma fifo_inv_init: "fifo_inv (ThreadPool_init n)"
  by (simp add: fifo_inv_def ThreadPool_init_def popped_jobs_def pushed_jobs_def)

lemma fifo_inv_quiet:
  assumes "fifo_inv s" "q s' = q s" "length (heap s') = length (heap s)"
    "trace s' = trace s \<or> trace s' = trace s @ [e] \<and> popped_job e = [] \<and> pushed_job e = []"
  shows "fifo_inv s'"
  using assms unfolding fifo_inv_def by auto

lemma fifo_inv_submit_push: "fifo_inv s \<Longrightarrow> fifo_inv (submit_push t f s)"
  by (simp add: fifo_inv_def)

lemma fifo_inv_worker_step:
  assumes "fifo_inv s" "worker_step i s = Some s'"
  shows "fifo_inv s'"
proof (cases "threads s i")
  case W_loop
  then show ?thesis
    using assms(2)
    by (intro fifo_inv_quiet [OF assms(1), where e = "Loop_cond i (\<not> is_shut_down s)"])
      (auto simp: worker_step_def)
next
  case W_lock
  then show ?thesis
    using assms(2)
    by (intro fifo_inv_quiet [OF assms(1), where e = "Locked i"])
      (auto simp: worker_step_def split: option.splits)
next
  case W_pred
  then obtain b pc where "s' = emit (Wait_pred i b) (goto i pc s)"
    using assms(2) by (auto simp: worker_step_def Let_def)
  then show ?thesis
    by (intro fifo_inv_quiet [OF assms(1), where e = "Wait_pred i b"]) auto
next
  case W_block
  then show ?thesis
    using assms(2)
    by (intro fifo_inv_quiet [OF assms(1), where e = "Unlocked i"])
      (auto simp: worker_step_def)
next
  case W_waiting
  then show ?thesis using assms(2) by (simp add: worker_step_def)
next
  case W_unlock
  then show ?thesis
    using assms(2)
    by (intro fifo_inv_quiet [OF assms(1), where e = "Unlocked i"])
      (auto simp: worker_step_def)
next
  case W_pop
  show ?thesis
  proof (cases "q s")
    case Nil
    then have "s' = emit (Popped i None) (goto i W_loop (s\<lparr>q := []\<rparr>))"
      using assms(2) W_pop by (simp add: worker_step_def safe_queue_pop_def safe_queue_empty_def)
    then show ?thesis
      using Nil by (intro fifo_inv_quiet [OF assms(1), where e = "Popped i None"]) auto
  next
    case (Cons j js)
    then have "s' = emit (Popped i (Some j)) (goto i (W_call j) (s\<lparr>q := js\<rparr>))"
      using assms(2) W_pop by (simp add: worker_step_def safe_queue_pop_def safe_queue_empty_def)
    then show ?thesis
      using assms(1) Cons by (simp add: fifo_inv_def)
  qed
next
  case (W_call j)
  then consider "s' = goto i W_terminated s"
    | p pt where "s' = emit (Called i p) (goto i W_loop (s\<lparr>heap := (heap s)[p := pt]\<rparr>))"
    using assms(2)
    by (cases j) (auto simp: worker_step_def split: if_splits sum.splits)
  then show ?thesis
  proof cases
    case 1
    then show ?thesis
      by (intro fifo_inv_quiet [OF assms(1), where e = "Called i 0"]) auto
  next
    case 2
    then show ?thesis
      by (intro fifo_inv_quiet [OF assms(1), where e = "Called i p"]) auto
  qed
next
  case W_stopped
  then show ?thesis using assms(2) by (simp add: worker_step_def)
next
  case W_terminated
  then show ?thesis using assms(2) by (simp add: worker_step_def)
qed

lemma fifo_inv_notify_one:
  assumes "fifo_inv s" "notify_one w s = Some s'"
  shows "fifo_inv s'"
  using notify_one_Some [OF assms(2)] assms(1) by (auto simp: fifo_inv_def)

lemma fifo_inv_submit_notify:
  assumes "fifo_inv s" "submit_notify t w s = Some (p, s')"
  shows "fifo_inv s'"
proof -
  obtain s1 where s1: "notify_one w s = Some s1"
    and s': "s' = emit (Notified_one t) (s1\<lparr>in_submit := (in_submit s1)(t := None)\<rparr>)"
    using assms(2) by (auto simp: submit_notify_def split: option.splits)
  have "fifo_inv s1" using fifo_inv_notify_one [OF assms(1) s1] .
  then show ?thesis unfolding s' by (simp add: fifo_inv_def)
qed

lemma fifo_inv_dtor_step:
  assumes "fifo_inv s" "dtor_step s = Some s'"
  shows "fifo_inv s'"
  using assms
  by (auto simp: dtor_step_def fifo_inv_def
      split: dtor_pc.splits option.splits if_splits outcome.splits)

lemma fifo_inv_step:
  assumes "fifo_inv s" "step l s = Some s'"
  shows "fifo_inv s'"
proof (cases l)
  case (Run_worker i)
  then show ?thesis
    using assms fifo_inv_worker_step by (auto simp: step_def split: if_splits)
next
  case (Spurious_wake i)
  then show ?thesis
    using assms by (auto simp: step_def fifo_inv_def split: if_splits)
next
  case (Begin_submit c f)
  then show ?thesis
    using assms fifo_inv_submit_push by (auto simp: step_def split: if_splits)
next
  case (End_submit t w)
  then obtain p s1 where s1: "submit_notify t w s = Some (p, s1)"
    and s': "s' = s1 \<or> s' = s1\<lparr>dtor := D_get, dtor_f := Some p\<rparr>"
    using assms(2) by (auto simp: step_def split: if_splits option.splits prod.splits)
  have "fifo_inv s1" using fifo_inv_submit_notify [OF assms(1) s1] .
  then show ?thesis using s' by (auto simp: fifo_inv_def)
next
  case Run_dtor
  then show ?thesis using assms fifo_inv_dtor_step by (simp add: step_def)
qed

lemma fifo_inv_run: "fifo_inv s \<Longrightarrow> run ls s = Some s' \<Longrightarrow> fifo_inv s'"
proof (induction ls arbitrary: s)
  case Nil
  then show ?case by simp
next
  case (Cons l ls)
  then show ?case by (auto split: option.splits dest: fifo_inv_step)
qed


section \<open>Submitting and waking\<close>

lemma waiting_submit_push [simp]: "waiting (submit_push t f s) = waiting s"
  by (simp add: waiting_def)

lemma submit_returns:
  "\<exists>w s'. submit t f w s = Some (length (heap s), s') \<and>
     q s' = q s @ [Wrapper (length (heap s))] \<and>
     heap s' = heap s @ [\<lparr>task = f, shared_state = None\<rparr>] \<and>
     trace s' = trace s @ [Pushed t (length (heap s)), Notified_one t]"
proof (cases "waiting s")
  case Nil
  then have "submit t f None s =
      Some (length (heap s),
        emit (Notified_one t) ((submit_push t f s)\<lparr>in_submit := (in_submit (submit_push t f s))(t := None)\<rparr>))"
    by (simp add: submit_def submit_notify_def notify_one_def)
  then show ?thesis by (intro exI conjI) (assumption, simp_all)
next
  case (Cons i rest)
  then have "i \<in> set (waiting (submit_push t f s))" by simp
  then have "submit t f (Some i) s =
      Some (length (heap s),
        emit (Notified_one t)
          ((goto i W_lock (submit_push t f s))\<lparr>in_submit := (in_submit (submit_push t f s))(t := None)\<rparr>))"
    by (simp add: submit_def submit_notify_def notify_one_def del: in_waiting)
  then show ?thesis by (intro exI conjI) (assumption, simp_all)
qed

lemma notify_all_wakes: "waiting (notify_all s) = []"
  by (auto simp: filter_empty_conv waiting_def notify_all_def)

lemma upt_0_2: "[0..<2] = [0, 1]"
  by code_simp

lemma takeWhile_before: "a \<notin> set xs \<Longrightarrow> takeWhile (\<lambda>x. x \<noteq> a) (xs @ a # ys) = xs"
  by (induction xs) auto

lemma prefix_before:
  assumes "distinct (xs @ a # ys)" "xs @ a # ys = ps @ qs" "a \<notin> set qs"
  shows "set xs \<subseteq> set ps"
proof -
  have "a \<in> set (ps @ qs)" using assms(2) by (metis in_set_conv_decomp)
  then have "a \<in> set ps" using assms(3) by simp
  then obtain ps1 ps2 where ps: "ps = ps1 @ a # ps2" by (meson split_list)
  have d: "distinct (ps1 @ a # (ps2 @ qs))" using assms(1,2) ps by simp
  have "a \<notin> set xs" "a \<notin> set ps1" using assms(1) d by auto
  then have "xs = takeWhile (\<lambda>x. x \<noteq> a) (xs @ a # ys)"
    "ps1 = takeWhile (\<lambda>x. x \<noteq> a) (ps1 @ a # (ps2 @ qs))"
    by (simp_all add: takeWhile_before)
  then have "xs = ps1" using assms(2) ps by simp
  then show ?thesis using ps by auto
qed


section \<open>The claims\<close>

subsection \<open>The order of teardown\<close>

text \<open>
  Claim C1. In every run of a pool of \<open>n\<close> workers, what the owner has done so far is
  an initial part of one fixed sequence: the push and the \<open>notify_one\<close> of the \<open>submit\<close>
  of the sentinel, the return of \<open>f.get()\<close>, the write of the flag, \<open>notify_all\<close>, the
  joins of the threads in order, the destruction of the members. The sentinel is the
  no-op; \<open>f.get()\<close> has returned only if the sentinel has been run, and then every job
  pushed before the sentinel has been popped; the flag is set exactly from the write
  on; a thread that has been joined has left its function; and when the members are
  destroyed every worker has.

  Each statement of the destructor does its part when its turn comes. The owner can
  always enter the destructor and push the sentinel, and can always finish that
  \<open>submit\<close> with its \<open>notify_one\<close>, which hands it the future of the sentinel.
  \<open>f.get()\<close> has no step while the shared state of the sentinel is empty and returns
  as soon as it is not. Then the write sets the flag; \<open>notify_all\<close> sends every blocked
  worker to take the mutex and leaves none blocked; the join of thread \<open>k\<close> has no
  step until that worker has left its function and then moves on to thread \<open>k + 1\<close>;
  after the last join the members are destroyed. The destructor is past its body
  exactly when the owner's events are the whole sequence.
\<close>

theorem teardown_order:
  assumes "run ls (ThreadPool_init n) = Some s"
  shows "\<exists>f rest. teardown_sequence f n = owner_events (trace s) @ rest \<and>
           (Pushed Owner f \<in> set (trace s) \<longrightarrow> f < length (heap s) \<and> task (heap s ! f) = noop) \<and>
           (Got f \<in> set (trace s) \<longrightarrow>
              f < length (heap s) \<and> future_get (heap s ! f) = Some Returned_void) \<and>
           (Got f \<in> set (trace s) \<longrightarrow>
              (\<forall>xs ys. pushed_jobs (trace s) = xs @ Wrapper f # ys \<longrightarrow>
                 set xs \<subseteq> set (popped_jobs (trace s)))) \<and>
           (Flag_set \<in> set (trace s) \<longleftrightarrow> is_shut_down s) \<and>
           (\<forall>i. Joined i \<in> set (trace s) \<longrightarrow> i < n \<and> threads s i = W_stopped) \<and>
           (Destroyed \<in> set (trace s) \<longrightarrow> (\<forall>i<n. threads s i = W_stopped)) \<and>
           (dtor s = D_start \<longrightarrow>
              step Run_dtor s = Some ((submit_push Owner noop s)\<lparr>dtor := D_submit\<rparr>)) \<and>
           (dtor s = D_submit \<longrightarrow>
              (\<exists>w s'. step (End_submit Owner w) s = Some s' \<and> dtor s' = D_get \<and>
                 dtor_f s' = Some f \<and> trace s' = trace s @ [Notified_one Owner])) \<and>
           (dtor s = D_get \<longrightarrow>
              (future_get (heap s ! f) = None \<longrightarrow> step Run_dtor s = None) \<and>
              (future_get (heap s ! f) \<noteq> None \<longrightarrow>
                 step Run_dtor s = Some (emit (Got f) (s\<lparr>dtor := D_set_flag\<rparr>)))) \<and>
           (dtor s = D_set_flag \<longrightarrow>
              step Run_dtor s =
                Some (emit Flag_set (s\<lparr>is_shut_down := True, dtor := D_notify_all\<rparr>))) \<and>
           (dtor s = D_notify_all \<longrightarrow>
              step Run_dtor s = Some (emit Notified_all ((notify_all s)\<lparr>dtor := D_join 0\<rparr>)) \<and>
              (\<forall>i<n. threads s i = W_waiting \<longrightarrow> threads (notify_all s) i = W_lock) \<and>
              waiting (notify_all s) = []) \<and>
           (\<forall>k<n. dtor s = D_join k \<longrightarrow>
              (threads s k = W_stopped \<longrightarrow>
                 step Run_dtor s = Some (emit (Joined k) (s\<lparr>dtor := D_join (Suc k)\<rparr>))) \<and>
              (threads s k \<noteq> W_stopped \<longrightarrow> step Run_dtor s = None)) \<and>
           (dtor s = D_join n \<longrightarrow>
              step Run_dtor s = Some (emit Destroyed (s\<lparr>dtor := D_destroyed\<rparr>))) \<and>
           (dtor s = D_destroyed \<longleftrightarrow> owner_events (trace s) = teardown_sequence f n)"
proof -
  obtain f rest where seq: "teardown_sequence f n = owner_events (trace s) @ rest"
    and push: "Pushed Owner f \<in> set (trace s) \<longrightarrow> f < length (heap s) \<and> task (heap s ! f) = noop"
    and got: "Got f \<in> set (trace s) \<longrightarrow>
      f < length (heap s) \<and> future_get (heap s ! f) = Some Returned_void"
    and flag: "Flag_set \<in> set (trace s) \<longleftrightarrow> is_shut_down s"
    and join: "\<forall>i. Joined i \<in> set (trace s) \<longrightarrow> i < n \<and> threads s i = W_stopped"
    and destroy: "Destroyed \<in> set (trace s) \<longrightarrow> (\<forall>i<n. threads s i = W_stopped)"
    and sent: "dtor s \<noteq> D_start \<longrightarrow>
      sentinel s = Some f \<and> f < length (heap s) \<and> task (heap s ! f) = noop \<and>
      owner_events (trace s) = teardown_done f n (dtor s)"
    using teardown_events [OF assms] by blast
  have wf: "wf s" using wf_run [OF wf_init assms] .
  have ok: "results_ok s"
    using invs_run [OF dtor_inv_init results_ok_init assms] by simp
  have n: "n_threads s = n" using n_threads_run [OF assms] by simp
  have fi: "fifo_inv s" using fifo_inv_run [OF fifo_inv_init assms] .
  have fifo: "popped_jobs (trace s) @ q s = pushed_jobs (trace s)"
    using fi by (simp add: fifo_inv_def)
  have "pushed_jobs (trace s) = map Wrapper [0..<length (heap s)]"
    using fi by (simp add: fifo_inv_def)
  then have dist: "distinct (pushed_jobs (trace s))"
    by (simp add: distinct_map inj_on_def)
  have drain: "set xs \<subseteq> set (popped_jobs (trace s))"
    if g: "Got f \<in> set (trace s)" and p: "pushed_jobs (trace s) = xs @ Wrapper f # ys" for xs ys
  proof -
    have "\<not> pending s (Wrapper f)" using got g by (simp add: future_get_def)
    then have "Wrapper f \<notin> set (q s)" using wf_q_pending [OF wf] by blast
    moreover have "distinct (xs @ Wrapper f # ys)" using dist p by simp
    moreover have "xs @ Wrapper f # ys = popped_jobs (trace s) @ q s" using fifo p by simp
    ultimately show ?thesis
      using prefix_before [of xs "Wrapper f" ys "popped_jobs (trace s)" "q s"] by blast
  qed
  have drain': "Got f \<in> set (trace s) \<longrightarrow>
      (\<forall>xs ys. pushed_jobs (trace s) = xs @ Wrapper f # ys \<longrightarrow>
         set xs \<subseteq> set (popped_jobs (trace s)))"
    using drain by blast
  have s1: "dtor s = D_start \<longrightarrow>
      step Run_dtor s = Some ((submit_push Owner noop s)\<lparr>dtor := D_submit\<rparr>)"
    by (simp add: step_def dtor_step_def)
  have s2: "dtor s = D_submit \<longrightarrow>
      (\<exists>w s'. step (End_submit Owner w) s = Some s' \<and> dtor s' = D_get \<and>
         dtor_f s' = Some f \<and> trace s' = trace s @ [Notified_one Owner])"
  proof
    assume d: "dtor s = D_submit"
    then have i: "in_submit s Owner = Some f" using sent by (simp add: sentinel_def)
    show "\<exists>w s'. step (End_submit Owner w) s = Some s' \<and> dtor s' = D_get \<and>
         dtor_f s' = Some f \<and> trace s' = trace s @ [Notified_one Owner]"
    proof (cases "waiting s")
      case Nil
      then show ?thesis
        using d i
        by (intro exI [of _ None]) (simp add: step_def submit_notify_def notify_one_def)
    next
      case (Cons k ks)
      then have "k \<in> set (waiting s)" by simp
      then show ?thesis
        using d i
        by (intro exI [of _ "Some k"])
          (simp add: step_def submit_notify_def notify_one_def del: in_waiting)
    qed
  qed
  have s3: "dtor s = D_get \<longrightarrow>
      (future_get (heap s ! f) = None \<longrightarrow> step Run_dtor s = None) \<and>
      (future_get (heap s ! f) \<noteq> None \<longrightarrow>
         step Run_dtor s = Some (emit (Got f) (s\<lparr>dtor := D_set_flag\<rparr>)))"
  proof
    assume d: "dtor s = D_get"
    then have i: "dtor_f s = Some f" "f < length (heap s)" "task (heap s ! f) = noop"
      using sent by (simp_all add: sentinel_def)
    have r: "r = Returned_void" if "shared_state (heap s ! f) = Some r" for r
    proof -
      have "ready s f r" using that i(2) by (simp add: ready_def)
      then have "r = task (heap s ! f) ()" using ok unfolding results_ok_def by blast
      then show ?thesis using i(3) by (simp add: noop_def)
    qed
    show "(future_get (heap s ! f) = None \<longrightarrow> step Run_dtor s = None) \<and>
      (future_get (heap s ! f) \<noteq> None \<longrightarrow>
         step Run_dtor s = Some (emit (Got f) (s\<lparr>dtor := D_set_flag\<rparr>)))"
      using d i r by (auto simp: step_def dtor_step_def future_get_def)
  qed
  have s4: "dtor s = D_set_flag \<longrightarrow>
      step Run_dtor s = Some (emit Flag_set (s\<lparr>is_shut_down := True, dtor := D_notify_all\<rparr>))"
    by (simp add: step_def dtor_step_def)
  have s5: "dtor s = D_notify_all \<longrightarrow>
      step Run_dtor s = Some (emit Notified_all ((notify_all s)\<lparr>dtor := D_join 0\<rparr>)) \<and>
      (\<forall>i<n. threads s i = W_waiting \<longrightarrow> threads (notify_all s) i = W_lock) \<and>
      waiting (notify_all s) = []"
    using n by (simp add: step_def dtor_step_def notify_all_wakes)
  have s6: "\<forall>k<n. dtor s = D_join k \<longrightarrow>
      (threads s k = W_stopped \<longrightarrow>
         step Run_dtor s = Some (emit (Joined k) (s\<lparr>dtor := D_join (Suc k)\<rparr>))) \<and>
      (threads s k \<noteq> W_stopped \<longrightarrow> step Run_dtor s = None)"
    using n by (simp add: step_def dtor_step_def)
  have s7: "dtor s = D_join n \<longrightarrow>
      step Run_dtor s = Some (emit Destroyed (s\<lparr>dtor := D_destroyed\<rparr>))"
    using n by (simp add: step_def dtor_step_def)
  have s8: "dtor s = D_destroyed \<longleftrightarrow> owner_events (trace s) = teardown_sequence f n"
  proof (cases "dtor s = D_start")
    case True
    then have "owner_events (trace s) = []"
      using seq sent teardown_events [OF assms] invs_run [OF dtor_inv_init results_ok_init assms]
      by (simp add: dtor_inv_def)
    then show ?thesis using True by (simp add: teardown_sequence_def)
  next
    case False
    then have e: "owner_events (trace s) = teardown_done f n (dtor s)" using sent by simp
    show ?thesis
    proof (cases "dtor s")
      case (D_join k)
      have "Destroyed \<notin> set (teardown_done f n (D_join k))" by auto
      moreover have "Destroyed \<in> set (teardown_sequence f n)"
        by (simp add: teardown_sequence_def)
      ultimately have "teardown_done f n (D_join k) \<noteq> teardown_sequence f n" by metis
      then show ?thesis using e D_join by simp
    qed (use e in \<open>auto simp: teardown_sequence_def\<close>)
  qed
  show ?thesis
    by (intro exI [of _ f] exI [of _ rest] conjI)
      (rule seq, rule push, rule got, rule drain', rule flag, rule join, rule destroy,
        rule s1, rule s2, rule s3, rule s4, rule s5, rule s6, rule s7, rule s8)
qed

theorem teardown_order_witness:
  "\<exists>s s2. run two_worker_teardown_schedule (ThreadPool_init 2) = Some s \<and>
     dtor s = D_destroyed \<and> is_shut_down s \<and> q s = [] \<and>
     threads s 0 = W_stopped \<and> threads s 1 = W_stopped \<and>
     owner_events (trace s) = teardown_sequence 0 2 \<and>
     run before_notify_all_schedule (ThreadPool_init 2) = Some s2 \<and>
     dtor s2 = D_notify_all \<and> threads s2 1 = W_waiting \<and>
     step Run_dtor s2 = Some (emit Notified_all ((notify_all s2)\<lparr>dtor := D_join 0\<rparr>)) \<and>
     threads (notify_all s2) 1 = W_lock \<and> waiting (notify_all s2) = []"
proof -
  obtain s where r: "run two_worker_teardown_schedule (ThreadPool_init 2) = Some s"
    and c: "dtor s = D_destroyed" "is_shut_down s" "q s = []"
    "threads s 0 = W_stopped" "threads s 1 = W_stopped"
    and p: "Pushed Owner 0 \<in> set (trace s)"
    by (simp add: run_defs two_worker_teardown_schedule_def before_notify_all_schedule_def
        two_waiting_schedule_def upt_0_2)
  obtain s2 where r2: "run before_notify_all_schedule (ThreadPool_init 2) = Some s2"
    and c2: "dtor s2 = D_notify_all" "threads s2 1 = W_waiting"
    by (simp add: run_defs before_notify_all_schedule_def two_waiting_schedule_def upt_0_2)
  obtain f where f: "dtor s = D_destroyed \<longleftrightarrow> owner_events (trace s) = teardown_sequence f 2"
    using teardown_order [OF r] by (elim exE conjE) (rule that)
  then have e: "owner_events (trace s) = teardown_sequence f 2" using c(1) by simp
  have "Pushed Owner 0 \<in> set (owner_events (trace s))"
    using p by (simp add: owner_events_def)
  then have "f = 0" unfolding e by (auto simp: teardown_sequence_def)
  then have e0: "owner_events (trace s) = teardown_sequence 0 2" using e by simp
  obtain f2 where "dtor s2 = D_notify_all \<longrightarrow>
      step Run_dtor s2 = Some (emit Notified_all ((notify_all s2)\<lparr>dtor := D_join 0\<rparr>)) \<and>
      (\<forall>i<2. threads s2 i = W_waiting \<longrightarrow> threads (notify_all s2) i = W_lock) \<and>
      waiting (notify_all s2) = []"
    using teardown_order [OF r2] by (elim exE conjE) (rule that)
  then have n2: "step Run_dtor s2 = Some (emit Notified_all ((notify_all s2)\<lparr>dtor := D_join 0\<rparr>))"
    "threads (notify_all s2) 1 = W_lock" "waiting (notify_all s2) = []"
    using c2 by simp_all
  show ?thesis
    by (intro exI [of _ s] exI [of _ s2] conjI)
      (rule r, rule c(1), rule c(2), rule c(3), rule c(4), rule c(5), rule e0,
        rule r2, rule c2(1), rule c2(2), rule n2(1), rule n2(2), rule n2(3))
qed

subsection \<open>Dequeuing in submission order\<close>

text \<open>
  Claim C2. The queue is strict FIFO. Whatever sequence of push and pop calls is run
  on an empty queue, the values returned by the successful pops, in the order of the
  pops, followed by what is left in the queue, are the pushed values in the order of
  the pushes. In every run of the pool, with any number of workers and of submitting
  threads, the jobs popped so far, in the order of the pops, followed by the jobs in
  the queue, are the jobs pushed so far in the order of the pushes.
\<close>

theorem safe_queue_fifo:
  "fst (run_calls cs []) @ snd (run_calls cs []) = pushed cs \<and>
   (run ls (ThreadPool_init n) = Some s \<longrightarrow>
      popped_jobs (trace s) @ q s = pushed_jobs (trace s))"
proof -
  have "popped_jobs (trace s) @ q s = pushed_jobs (trace s)"
    if "run ls (ThreadPool_init n) = Some s"
    using fifo_inv_run [OF fifo_inv_init that] by (simp add: fifo_inv_def)
  then show ?thesis using run_calls_fifo [of cs "[]"] by simp
qed

theorem safe_queue_fifo_witness:
  "\<exists>s. run two_jobs_schedule (ThreadPool_init 2) = Some s \<and>
     popped_jobs (trace s) = [Wrapper 0, Wrapper 1] \<and> q s = [] \<and>
     threads s 1 = W_call (Wrapper 0) \<and> threads s 0 = W_call (Wrapper 1) \<and>
     popped_jobs (trace s) @ q s = pushed_jobs (trace s)"
proof -
  obtain s where r: "run two_jobs_schedule (ThreadPool_init 2) = Some s"
    and p: "popped_jobs (trace s) = [Wrapper 0, Wrapper 1]" "q s = []"
    "threads s 1 = W_call (Wrapper 0)" "threads s 0 = W_call (Wrapper 1)"
    by (simp add: run_defs two_jobs_schedule_def upt_0_2 popped_jobs_def)
  show ?thesis
    using safe_queue_fifo [of "[]" two_jobs_schedule 2 s] r p by blast
qed

subsection \<open>When a worker stops\<close>

text \<open>
  The claim C3 as the specification states it fails on two counts. In the first run
  the only worker stops although none of its pops found the queue empty: it popped the
  sentinel, ran it, and then found the flag set. In the second run a job is pushed
  after the sentinel has run; the worker finds the flag set at its loop condition and
  stops, and the pool is destroyed with that job still in the queue.
\<close>

theorem worker_stops_without_empty_pop:
  "run teardown_schedule (ThreadPool_init 1) \<noteq> None \<and>
   threads (the (run teardown_schedule (ThreadPool_init 1))) 0 = W_stopped \<and>
   Popped 0 None \<notin> set (trace (the (run teardown_schedule (ThreadPool_init 1)))) \<and>
   run late_submit_schedule (ThreadPool_init 1) \<noteq> None \<and>
   threads (the (run late_submit_schedule (ThreadPool_init 1))) 0 = W_stopped \<and>
   dtor (the (run late_submit_schedule (ThreadPool_init 1))) = D_destroyed \<and>
   q (the (run late_submit_schedule (ThreadPool_init 1))) = [Wrapper 1]"
  by (simp add: run_defs teardown_schedule_def late_submit_schedule_def)

text \<open>
  Claim C3, amended. A worker has stopped exactly when it has found its loop condition
  false, that is, read the flag as set at the head of the loop; the flag is then set.
  Whenever a pop of a worker returns a job, with the flag set or not, the next thing
  the worker does is call that job: in the worker's events the pop is followed at once
  by the call, and while the pop is its last event the worker is about to call the
  job.
\<close>

theorem worker_stops_at_loop_condition:
  assumes "run ls (ThreadPool_init n) = Some s"
  shows "(threads s i = W_stopped \<longleftrightarrow> Loop_cond i False \<in> set (trace s)) \<and>
         (threads s i = W_stopped \<longrightarrow> is_shut_down s) \<and>
         (\<forall>k j. Suc k < length (worker_events i (trace s)) \<and>
                worker_events i (trace s) ! k = Popped i (Some j) \<longrightarrow>
                (\<exists>p. j = Wrapper p \<and> worker_events i (trace s) ! Suc k = Called i p)) \<and>
         (\<forall>j. worker_events i (trace s) \<noteq> [] \<and>
              last (worker_events i (trace s)) = Popped i (Some j) \<longrightarrow>
              threads s i = W_call j)"
  using worker_inv_run [OF worker_inv_init wf_init assms, of i]
  unfolding worker_inv_def pops_called_def by blast

theorem worker_stops_at_loop_condition_witness:
  "\<exists>s. run teardown_schedule (ThreadPool_init 1) = Some s \<and>
     (threads s 0 = W_stopped \<longleftrightarrow> Loop_cond 0 False \<in> set (trace s)) \<and>
     (threads s 0 = W_stopped \<longrightarrow> is_shut_down s) \<and>
     (\<forall>k j. Suc k < length (worker_events 0 (trace s)) \<and>
            worker_events 0 (trace s) ! k = Popped 0 (Some j) \<longrightarrow>
            (\<exists>p. j = Wrapper p \<and> worker_events 0 (trace s) ! Suc k = Called 0 p)) \<and>
     (\<forall>j. worker_events 0 (trace s) \<noteq> [] \<and>
          last (worker_events 0 (trace s)) = Popped 0 (Some j) \<longrightarrow>
          threads s 0 = W_call j)"
proof -
  obtain s where r: "run teardown_schedule (ThreadPool_init 1) = Some s"
    by (simp add: run_defs teardown_schedule_def)
  show ?thesis
    using worker_stops_at_loop_condition [OF r, of 0] r by blast
qed

subsection \<open>The flag and the mutex\<close>




subsection \<open>A callable that throws\<close>

text \<open>
  Claim C5. In any run, let a worker be about to call a job whose callable throws
  \<open>e\<close>. Then the call is a step of the worker that stores \<open>e\<close> in the shared state of
  the job's task and takes the worker back to the head of its loop, the other workers,
  the flag, the queue and the destructor being as before. From then on \<open>get\<close> on the
  future of the task rethrows \<open>e\<close>, in every continuation of the run, and no worker and
  no destructor is ever terminated by an exception. And \<open>submit\<close> of a callable that
  throws returns a future as any other \<open>submit\<close> does, with an empty shared state: the
  callable is not run there.
\<close>

theorem callable_failure_captured:
  fixes s :: "'v ThreadPool"
  assumes "run ls (ThreadPool_init n) = Some s"
    and "i < n" and "threads s i = W_call (Wrapper p)"
    and "task (heap s ! p) () = Thrown e"
  shows "(\<exists>s'. step (Run_worker i) s = Some s' \<and>
           threads s' i = W_loop \<and>
           (\<forall>k. k \<noteq> i \<longrightarrow> threads s' k = threads s k) \<and>
           is_shut_down s' = is_shut_down s \<and> q s' = q s \<and> dtor s' = dtor s \<and>
           future_get (heap s' ! p) = Some (Thrown e) \<and>
           (\<forall>ls' s''. run ls' s' = Some s'' \<longrightarrow>
              future_get (heap s'' ! p) = Some (Thrown e) \<and>
              (\<forall>k. threads s'' k \<noteq> W_terminated) \<and> dtor s'' \<noteq> D_terminated)) \<and>
         (\<forall>t f (s0 :: 'v ThreadPool). f () = Thrown e \<longrightarrow>
            (\<exists>w s1. submit t f w s0 = Some (length (heap s0), s1) \<and>
               future_get (heap s1 ! length (heap s0)) = None))"
proof -
  have wf: "wf s" using wf_run [OF wf_init assms(1)] .
  have di: "dtor_inv s" "results_ok s"
    using invs_run [OF dtor_inv_init results_ok_init assms(1)] by simp_all
  have n: "n_threads s = n" using n_threads_run [OF assms(1)] by simp
  have p: "p < length (heap s)" "shared_state (heap s ! p) = None"
    using wf_call [OF wf assms(3)] by auto
  define s' where "s' = emit (Called i p)
      (goto i W_loop (s\<lparr>heap := (heap s)[p := (heap s ! p)\<lparr>shared_state := Some (Thrown e)\<rparr>]\<rparr>))"
  have st: "step (Run_worker i) s = Some s'"
    using assms(2-4) n p by (simp add: step_def worker_step_def packaged_task_call_def s'_def)
  have r: "ready s' p (Thrown e)" using p by (simp add: ready_def s'_def)
  have wf': "wf s'" using wf_step [OF wf st] .
  have di': "dtor_inv s'" "results_ok s'"
    using dtor_inv_step [OF di st] results_ok_step [OF di(2) st] by simp_all
  have later: "future_get (heap s'' ! p) = Some (Thrown e) \<and>
      (\<forall>k. threads s'' k \<noteq> W_terminated) \<and> dtor s'' \<noteq> D_terminated"
    if "run ls' s' = Some s''" for ls' s''
    using ready_run [OF r that] wf_not_terminated [OF wf_run [OF wf' that]]
      invs_run [OF di' that]
    by (simp add: ready_def future_get_def dtor_inv_def)
  have now: "threads s' i = W_loop" "\<forall>k. k \<noteq> i \<longrightarrow> threads s' k = threads s k"
    "is_shut_down s' = is_shut_down s" "q s' = q s" "dtor s' = dtor s"
    "future_get (heap s' ! p) = Some (Thrown e)"
    using p by (simp_all add: s'_def future_get_def)
  have sub: "\<exists>w s1. submit t f w s0 = Some (length (heap s0), s1) \<and>
      future_get (heap s1 ! length (heap s0)) = None" for t f and s0 :: "'v ThreadPool"
  proof -
    obtain w s1 where "submit t f w s0 = Some (length (heap s0), s1)"
      "heap s1 = heap s0 @ [\<lparr>task = f, shared_state = None\<rparr>]"
      using submit_returns [of t f s0] by blast
    then show ?thesis
      by (intro exI [of _ w] exI [of _ s1]) (simp add: future_get_def)
  qed
  have first: "\<exists>s'. step (Run_worker i) s = Some s' \<and>
           threads s' i = W_loop \<and>
           (\<forall>k. k \<noteq> i \<longrightarrow> threads s' k = threads s k) \<and>
           is_shut_down s' = is_shut_down s \<and> q s' = q s \<and> dtor s' = dtor s \<and>
           future_get (heap s' ! p) = Some (Thrown e) \<and>
           (\<forall>ls' s''. run ls' s' = Some s'' \<longrightarrow>
              future_get (heap s'' ! p) = Some (Thrown e) \<and>
              (\<forall>k. threads s'' k \<noteq> W_terminated) \<and> dtor s'' \<noteq> D_terminated)"
    using st later now by (intro exI [of _ s']) simp
  show ?thesis using first sub by simp
qed

theorem callable_failure_captured_witness:
  "\<exists>s s'. run throwing_schedule (ThreadPool_init 1) = Some s \<and>
     threads s 0 = W_call (Wrapper 0) \<and> task (heap s ! 0) () = Thrown ''boom'' \<and>
     step (Run_worker 0) s = Some s' \<and> threads s' 0 = W_loop \<and>
     future_get (heap s' ! 0) = Some (Thrown ''boom'')"
proof -
  obtain s where r: "run throwing_schedule (ThreadPool_init 1) = Some s"
    and c: "threads s 0 = W_call (Wrapper 0)" and t: "task (heap s ! 0) () = Thrown ''boom''"
    by (simp add: run_defs throwing_schedule_def)
  have "0 < (1::nat)" by simp
  from callable_failure_captured [OF r this c t]
  obtain s' where "step (Run_worker 0) s = Some s'" "threads s' 0 = W_loop"
    "future_get (heap s' ! 0) = Some (Thrown ''boom'')"
    by blast
  then show ?thesis using r c t by blast
qed

subsection \<open>The result of \<open>pop\<close>\<close>

text \<open>
  Claim C6. \<open>pop\<close> on a queue with head \<open>x\<close> returns true, hands \<open>x\<close> back through the
  out-parameter and leaves the rest; \<open>pop\<close> on the empty queue returns false and leaves
  the out-parameter and the queue as they were. Both are plain results of one call:
  the queue itself never waits for an element.
\<close>

theorem safe_queue_pop_result:
  "safe_queue_pop t (x # xs) = (True, x, xs) \<and> safe_queue_pop t [] = (False, t, [])"
  by (simp add: safe_queue_pop_def safe_queue_empty_def)

subsection \<open>Wake one, wake all\<close>

text \<open>
  Claim C7. The notify of \<open>submit\<close> records one \<open>notify_one\<close> and changes at most one
  worker: none when no worker is blocked, and otherwise exactly one of the blocked
  workers, which goes on to take the mutex. A whole \<open>submit\<close> is the push followed by
  that notify. The notify of the destructor, after the flag is set, is \<open>notify_all\<close>:
  every blocked worker goes on to take the mutex and none stays blocked.
\<close>

theorem wake_one_on_submit_wake_all_on_teardown:
  "(submit_notify t w s = Some (fut, s') \<longrightarrow>
      trace s' = trace s @ [Notified_one t] \<and>
      (waiting s = [] \<longrightarrow> threads s' = threads s) \<and>
      (waiting s \<noteq> [] \<longrightarrow> (\<exists>i \<in> set (waiting s). threads s' = (threads s)(i := W_lock)))) \<and>
   (submit t1 f w1 s1 = Some (fut1, s1') \<longrightarrow>
      trace s1' = trace s1 @ [Pushed t1 fut1, Notified_one t1]) \<and>
   (dtor s2 = D_notify_all \<longrightarrow>
      dtor_step s2 = Some (emit Notified_all ((notify_all s2)\<lparr>dtor := D_join 0\<rparr>)) \<and>
      (\<forall>i. threads (notify_all s2) i = (if i \<in> set (waiting s2) then W_lock else threads s2 i)) \<and>
      waiting (notify_all s2) = [])"
proof -
  have A: "trace s' = trace s @ [Notified_one t] \<and>
      (waiting s = [] \<longrightarrow> threads s' = threads s) \<and>
      (waiting s \<noteq> [] \<longrightarrow> (\<exists>i \<in> set (waiting s). threads s' = (threads s)(i := W_lock)))"
    if a: "submit_notify t w s = Some (fut, s')"
  proof -
    obtain s0 where s0: "notify_one w s = Some s0"
      and s': "s' = emit (Notified_one t) (s0\<lparr>in_submit := (in_submit s0)(t := None)\<rparr>)"
      using a by (auto simp: submit_notify_def split: option.splits)
    consider "w = None" "waiting s = []" "s0 = s"
      | i where "w = Some i" "i \<in> set (waiting s)" "s0 = goto i W_lock s"
      using notify_one_Some [OF s0] by auto
    then have "trace s0 = trace s \<and> (waiting s = [] \<longrightarrow> threads s0 = threads s) \<and>
        (waiting s \<noteq> [] \<longrightarrow> (\<exists>i \<in> set (waiting s). threads s0 = (threads s)(i := W_lock)))"
    proof cases
      case 1
      then show ?thesis by simp
    next
      case 2
      then have "waiting s \<noteq> []" by (metis list.set(1) empty_iff)
      then show ?thesis using 2 by (auto simp del: in_waiting)
    qed
    then show ?thesis unfolding s' by simp
  qed
  have B: "trace s1' = trace s1 @ [Pushed t1 fut1, Notified_one t1]"
    if "submit t1 f w1 s1 = Some (fut1, s1')"
    using that
    by (auto simp: submit_def submit_notify_def split: option.splits dest!: notify_one_Some)
  have C: "dtor_step s2 = Some (emit Notified_all ((notify_all s2)\<lparr>dtor := D_join 0\<rparr>))"
    if "dtor s2 = D_notify_all"
    using that by (simp add: dtor_step_def)
  have D: "\<forall>i. threads (notify_all s2) i = (if i \<in> set (waiting s2) then W_lock else threads s2 i)"
    by simp
  show ?thesis using A B C D notify_all_wakes [of s2] by blast
qed

theorem wake_one_on_submit_wake_all_on_teardown_witness:
  "\<exists>s s' s1 s1' s2.
     run two_waiting_schedule (ThreadPool_init 2) = Some s \<and>
     waiting s = [0, 1] \<and>
     submit_notify Owner (Some 0) s = Some (0, s') \<and>
     trace s' = trace s @ [Notified_one Owner] \<and>
     (\<exists>i \<in> set (waiting s). threads s' = (threads s)(i := W_lock)) \<and>
     run (take 8 two_waiting_schedule) (ThreadPool_init 2) = Some s1 \<and>
     submit (Client 0) noop (Some 1) s1 = Some (0, s1') \<and>
     trace s1' = trace s1 @ [Pushed (Client 0) 0, Notified_one (Client 0)] \<and>
     run before_notify_all_schedule (ThreadPool_init 2) = Some s2 \<and>
     dtor s2 = D_notify_all \<and> waiting s2 = [1] \<and>
     dtor_step s2 = Some (emit Notified_all ((notify_all s2)\<lparr>dtor := D_join 0\<rparr>)) \<and>
     waiting (notify_all s2) = []"
proof -
  obtain s s' where r: "run two_waiting_schedule (ThreadPool_init 2) = Some s"
    and w: "waiting s = [0, 1]"
    and n: "submit_notify Owner (Some 0) s = Some (0, s')"
    by (simp add: run_defs two_waiting_schedule_def upt_0_2)
  obtain s1 s1' where r1: "run (take 8 two_waiting_schedule) (ThreadPool_init 2) = Some s1"
    and n1: "submit (Client 0) noop (Some 1) s1 = Some (0, s1')"
    by (simp add: run_defs submit_def two_waiting_schedule_def upt_0_2)
  obtain s2 where r2: "run before_notify_all_schedule (ThreadPool_init 2) = Some s2"
    and d2: "dtor s2 = D_notify_all" and w2: "waiting s2 = [1]"
    by (simp add: run_defs before_notify_all_schedule_def two_waiting_schedule_def upt_0_2)
  have ne: "waiting s \<noteq> []" using w by simp
  note th = wake_one_on_submit_wake_all_on_teardown
      [of Owner "Some 0" s 0 s' "Client 0" noop "Some 1" s1 0 s1' s2]
  have a: "trace s' = trace s @ [Notified_one Owner]"
    "\<exists>i \<in> set (waiting s). threads s' = (threads s)(i := W_lock)"
    using th n ne by blast+
  have b: "trace s1' = trace s1 @ [Pushed (Client 0) 0, Notified_one (Client 0)]"
    using th n1 by blast
  have c: "dtor_step s2 = Some (emit Notified_all ((notify_all s2)\<lparr>dtor := D_join 0\<rparr>))"
    "waiting (notify_all s2) = []"
    using th d2 by blast+
  show ?thesis
    using r w n a r1 n1 b r2 d2 w2 c by blast
qed

subsection \<open>\<open>submit\<close> always succeeds\<close>

text \<open>
  Claim C8. \<open>push\<close> appends to the queue, whatever its length. In every state,
  \<open>submit\<close> of any callable returns a future: the job is at the tail of the queue, its
  task holds the callable, and the shared state is still empty, so \<open>submit\<close> has not
  waited for the job to run. In a run, both steps of a client's \<open>submit\<close> are possible
  in every state of a pool that has not been destroyed.
\<close>

theorem submit_always_succeeds:
  "safe_queue_push x xs = xs @ [x] \<and>
   (\<exists>w s'. submit t f w s = Some (length (heap s), s') \<and>
      q s' = q s @ [Wrapper (length (heap s))] \<and>
      task (heap s' ! length (heap s)) = f \<and>
      future_get (heap s' ! length (heap s)) = None) \<and>
   (dtor s1 \<noteq> D_destroyed \<and> in_submit s1 (Client c) = None \<longrightarrow>
      step (Begin_submit c f) s1 = Some (submit_push (Client c) f s1)) \<and>
   (dtor s2 \<noteq> D_destroyed \<and> in_submit s2 (Client c) = Some p \<longrightarrow>
      (\<exists>w s'. step (End_submit (Client c) w) s2 = Some s' \<and> in_submit s' (Client c) = None))"
proof -
  have A: "\<exists>w s'. submit t f w s = Some (length (heap s), s') \<and>
      q s' = q s @ [Wrapper (length (heap s))] \<and>
      task (heap s' ! length (heap s)) = f \<and>
      future_get (heap s' ! length (heap s)) = None"
  proof -
    obtain w s' where "submit t f w s = Some (length (heap s), s')"
      "q s' = q s @ [Wrapper (length (heap s))]"
      "heap s' = heap s @ [\<lparr>task = f, shared_state = None\<rparr>]"
      using submit_returns [of t f s] by blast
    then show ?thesis
      by (intro exI [of _ w] exI [of _ s']) (simp add: future_get_def)
  qed
  have B: "step (Begin_submit c f) s1 = Some (submit_push (Client c) f s1)"
    if "dtor s1 \<noteq> D_destroyed \<and> in_submit s1 (Client c) = None"
    using that by (simp add: step_def)
  have C: "\<exists>w s'. step (End_submit (Client c) w) s2 = Some s' \<and> in_submit s' (Client c) = None"
    if h: "dtor s2 \<noteq> D_destroyed \<and> in_submit s2 (Client c) = Some p"
  proof (cases "waiting s2")
    case Nil
    then show ?thesis
      using h by (intro exI [of _ None]) (simp add: step_def submit_notify_def notify_one_def)
  next
    case (Cons i rest)
    then have "i \<in> set (waiting s2)" by simp
    then show ?thesis
      using h
      by (intro exI [of _ "Some i"])
        (simp add: step_def submit_notify_def notify_one_def del: in_waiting)
  qed
  show ?thesis using A B C by (simp add: safe_queue_push_def)
qed

theorem submit_always_succeeds_witness:
  "\<exists>s2. dtor (ThreadPool_init 1 :: unit ThreadPool) \<noteq> D_destroyed \<and>
     in_submit (ThreadPool_init 1 :: unit ThreadPool) (Client 0) = None \<and>
     step (Begin_submit 0 noop) (ThreadPool_init 1 :: unit ThreadPool) = Some s2 \<and>
     dtor s2 \<noteq> D_destroyed \<and> in_submit s2 (Client 0) = Some 0 \<and>
     (\<exists>w s'. step (End_submit (Client 0) w) s2 = Some s' \<and> in_submit s' (Client 0) = None)"
proof -
  let ?s1 = "ThreadPool_init 1 :: unit ThreadPool"
  let ?s2 = "submit_push (Client 0) noop ?s1"
  have h1: "dtor ?s1 \<noteq> D_destroyed \<and> in_submit ?s1 (Client 0) = None"
    by (simp add: ThreadPool_init_def)
  have h2: "dtor ?s2 \<noteq> D_destroyed \<and> in_submit ?s2 (Client 0) = Some 0"
    by (simp add: ThreadPool_init_def)
  note th = submit_always_succeeds [of "0::nat" "[]" Owner noop ?s1 ?s1 0 ?s2 0]
  have "step (Begin_submit 0 noop) ?s1 = Some ?s2"
    "\<exists>w s'. step (End_submit (Client 0) w) ?s2 = Some s' \<and> in_submit s' (Client 0) = None"
    using th h1 h2 by blast+
  then show ?thesis using h1 h2 by (intro exI [of _ ?s2]) simp
qed

subsection \<open>The value document\<close>

text \<open>
  Claim C9. A node of the wrong shape makes each of the three operations throw a
  \<open>runtime_error\<close> that names the expected shape: the integer index and \<open>push\<close> on a
  node that is not an array, the string index on a node that is not an object. No
  node is returned.
\<close>

theorem Node_wrong_shape:
  "((\<forall>a. v \<noteq> Array a) \<longrightarrow>
      Node_index i (Node v) = Inl (runtime_error ''not an array'') \<and>
      Node_push rhs (Node v) = Inl (runtime_error ''not an array push'')) \<and>
   ((\<forall>m. v \<noteq> Object m) \<longrightarrow>
      Node_index_key k (Node v) = Inl (runtime_error ''not an object''))"
  by (cases v) simp_all

theorem Node_wrong_shape_witness:
  "Node_index 0 (Node (String ''s'' :: unit Value)) = Inl (runtime_error ''not an array'') \<and>
   Node_push (Node Null) (Node (String ''s'' :: unit Value)) =
     Inl (runtime_error ''not an array push'') \<and>
   Node_index_key ''k'' (Node (String ''s'' :: unit Value)) =
     Inl (runtime_error ''not an object'')"
  using Node_wrong_shape [of "String ''s'' :: unit Value" 0 "Node Null" "''k''"] by simp

text \<open>
  Claim C10. On a node holding an object, the string index with a key the object does
  not have throws nothing: the reference it returns denotes a new null node, and the
  object now has that null node under the key, all other keys as before.
\<close>

theorem Node_index_key_absent:
  "object key = None \<Longrightarrow>
   Node_index_key key (Node (Object object)) =
     Inr (Node Null, Node (Object (object(key \<mapsto> Node Null))))"
  by simp

theorem Node_index_key_absent_witness:
  "Map.empty ''a'' = (None :: unit Node option) \<and>
   Node_index_key ''a'' (Node (Object Map.empty)) =
     Inr (Node Null :: unit Node, Node (Object [''a'' \<mapsto> Node Null]))"
  using Node_index_key_absent [of "Map.empty :: string \<Rightarrow> unit Node option" "''a''"] by simp

end
